theory Spec2Isabelle
  imports Main "HOL-Library.Word" "HOL-Library.List_Lexorder" "HOL-Library.Product_Lexorder"
begin

unbundle bit_operations_syntax

section \<open>Oriented node handles\<close>

text \<open>
  \<^verbatim>\<open>gbwt::node_type\<close>, \<^verbatim>\<open>gbwt::size_type\<close> and \<^verbatim>\<open>gcsa::size_type\<close> are unsigned 64-bit
  integers; \<^verbatim>\<open>vg::id_t\<close> is a 64-bit integer that the code converts to and from
  \<^verbatim>\<open>size_type\<close> without a check. All of them are 64-bit words here. Container sizes and
  loop indices (\<^verbatim>\<open>size_t\<close>) are natural numbers: they are bounded by the length of the
  container they index.
\<close>

type_synonym node_type = "64 word"
type_synonym size_type = "64 word"
type_synonym id_t = "64 word"
type_synonym path_type = "node_type list"

text \<open>
  Modelled from the spec: the handle encoding of \<^verbatim>\<open>gbwt::Node\<close>, which is not part of the
  sources. A handle packs \<open>(id, reverse)\<close> as \<open>2 * id + reverse\<close>, and the reverse
  complement of a handle is \<open>h XOR 1\<close>.
\<close>

definition Node_id :: "node_type \<Rightarrow> size_type" where
  "Node_id node = drop_bit 1 node"

definition Node_is_reverse :: "node_type \<Rightarrow> bool" where
  "Node_is_reverse node = (node AND 1 \<noteq> 0)"

definition Node_encode :: "size_type \<Rightarrow> bool \<Rightarrow> node_type" where
  "Node_encode node_id reversed = 2 * node_id + (if reversed then 1 else 0)"

definition Node_reverse :: "node_type \<Rightarrow> node_type" where
  "Node_reverse node = node XOR 1"

section \<open>The node mapping\<close>

text \<open>
  Modelled from the spec: \<^verbatim>\<open>gcsa::NodeMapping\<close>, which is not part of the sources. It is an
  append-only table with fields \<open>first_node\<close>, \<open>next_node\<close> and a sequence of original
  ids; \<open>insert\<close> returns \<open>next_node\<close>, appends and increments; applying the mapping to a
  duplicate id returns its original id, and to an id below \<open>first_node\<close> the id itself.
  The spec says nothing about ids from \<open>next_node\<close> on: the model returns \<open>None\<close> there.
\<close>

record NodeMapping =
  first_node :: size_type
  next_node :: size_type
  mapping :: "size_type list"

definition NodeMapping_new :: "size_type \<Rightarrow> NodeMapping" where
  "NodeMapping_new first_node_id =
     \<lparr>first_node = first_node_id, next_node = first_node_id, mapping = []\<rparr>"

definition NodeMapping_insert :: "NodeMapping \<Rightarrow> size_type \<Rightarrow> size_type \<times> NodeMapping" where
  "NodeMapping_insert m node_id =
     (next_node m, m\<lparr>next_node := next_node m + 1, mapping := mapping m @ [node_id]\<rparr>)"

definition NodeMapping_apply :: "NodeMapping \<Rightarrow> size_type \<Rightarrow> size_type option" where
  "NodeMapping_apply m i =
     (if i < first_node m then Some i
      else if unat (i - first_node m) < length (mapping m)
      then Some (mapping m ! unat (i - first_node m))
      else None)"

section \<open>The unfolder's state and the trie duplicator\<close>

text \<open>
  The fields of \<^verbatim>\<open>PhaseUnfolder\<close> that \<^verbatim>\<open>insert_path\<close> and \<^verbatim>\<open>unfold_component\<close> read and
  write. The two tries are \<^verbatim>\<open>unordered_map\<close>s from a pair of handles to a handle, the
  crossing edges an \<^verbatim>\<open>unordered_set\<close> of pairs.
\<close>

record PhaseUnfolder =
  node_mapping :: NodeMapping
  border :: "id_t set"
  prefixes :: "node_type \<times> node_type \<rightharpoonup> node_type"
  suffixes :: "node_type \<times> node_type \<rightharpoonup> node_type"
  crossing_edges :: "(node_type \<times> node_type) set"

definition PhaseUnfolder_new :: "id_t \<Rightarrow> PhaseUnfolder" where
  "PhaseUnfolder_new next_node_id =
     \<lparr>node_mapping = NodeMapping_new next_node_id, border = {},
      prefixes = Map.empty, suffixes = Map.empty, crossing_edges = {}\<rparr>"

text \<open>
  \<^verbatim>\<open>trie.emplace(key, 0).first\<close> followed by the test \<^verbatim>\<open>iter->second == 0\<close>: a key that is
  absent, or present with the value 0, gets a fresh duplicate of \<open>node\<close>; any other
  stored value is returned as it is. The result is the handle stored under the key and
  the updated trie and mapping.
\<close>

definition trie_emplace ::
  "(node_type \<times> node_type \<rightharpoonup> node_type) \<Rightarrow> NodeMapping \<Rightarrow> node_type \<times> node_type \<Rightarrow> node_type
   \<Rightarrow> node_type \<times> (node_type \<times> node_type \<rightharpoonup> node_type) \<times> NodeMapping" where
  "trie_emplace trie m key node =
     (let second = (case trie key of None \<Rightarrow> 0 | Some v \<Rightarrow> v) in
      if second = 0 then
        (let (new_id, m') = NodeMapping_insert m (Node_id node);
             dup = Node_encode new_id (Node_is_reverse node)
         in (dup, trie(key \<mapsto> dup), m'))
      else (second, trie, m))"

text \<open>The body of the prefix loop at index \<open>i\<close>, on the pair (\<open>from\<close>, state).\<close>

definition prefix_step ::
  "path_type \<Rightarrow> nat \<Rightarrow> node_type \<times> PhaseUnfolder \<Rightarrow> node_type \<times> PhaseUnfolder" where
  "prefix_step to_insert i = (\<lambda>(from, st).
     let (dup, trie, m) =
           trie_emplace (prefixes st) (node_mapping st) (from, to_insert ! i) (to_insert ! i)
     in (dup, st\<lparr>node_mapping := m, prefixes := trie\<rparr>))"

text \<open>The body of the suffix loop at index \<open>i\<close>, on the pair (\<open>to\<close>, state).\<close>

definition suffix_step ::
  "path_type \<Rightarrow> nat \<Rightarrow> node_type \<times> PhaseUnfolder \<Rightarrow> node_type \<times> PhaseUnfolder" where
  "suffix_step to_insert i = (\<lambda>(to, st).
     let (dup, trie, m) =
           trie_emplace (suffixes st) (node_mapping st) (to_insert ! i, to) (to_insert ! i)
     in (dup, st\<lparr>node_mapping := m, suffixes := trie\<rparr>))"

definition reverse_complement :: "path_type \<Rightarrow> path_type" where
  "reverse_complement path = rev (map Node_reverse path)"

text \<open>
  \<^verbatim>\<open>PhaseUnfolder::insert_path\<close>. The prefix loop runs over the indices
  \<open>1, \<dots>, (n + 1) div 2 - 1\<close> upwards, the suffix loop over \<open>n - 2, \<dots>, (n + 1) div 2\<close>
  downwards, where \<open>n \<ge> 2\<close> is the length of the walk.
\<close>

definition insert_path :: "path_type \<Rightarrow> PhaseUnfolder \<Rightarrow> PhaseUnfolder" where
  "insert_path path st =
     (if length path < 2 then st
      else
        let to_insert = min path (reverse_complement path);
            mid = (length to_insert + 1) div 2;
            (from, st1) = fold (prefix_step to_insert) [1 ..< mid] (hd to_insert, st);
            (to, st2) = fold (suffix_step to_insert) (rev [mid ..< length to_insert - 1])
                          (last to_insert, st1)
        in st2\<lparr>crossing_edges := insert (from, to) (crossing_edges st2)\<rparr>)"

section \<open>The graph store\<close>

text \<open>
  Modelled from the spec: the graph store \<^verbatim>\<open>VG\<close>, which is not part of the sources. It
  supports node and edge membership queries, node and edge insertion and the merge of
  another graph. A node is its id with its sequence; an edge is an ordered pair of
  handles, and membership of an edge is bidirectional under flipping: the edge
  \<open>(from, to)\<close> and the edge \<open>(reverse to, reverse from)\<close> are the same edge. A node
  that is added under an id the graph already has is unified with the existing one.
  \<^verbatim>\<open>make_edge(from, to)\<close> is the pair \<open>(from, to)\<close>; \<^verbatim>\<open>candidate.from()\<close> and
  \<^verbatim>\<open>candidate.to()\<close> are the ids of its two handles.
\<close>

record VG =
  nodes :: "id_t \<rightharpoonup> string"
  edges :: "(node_type \<times> node_type) set"

definition VG_empty :: VG where
  "VG_empty = \<lparr>nodes = Map.empty, edges = {}\<rparr>"

definition VG_has_node :: "VG \<Rightarrow> id_t \<Rightarrow> bool" where
  "VG_has_node g i = (nodes g i \<noteq> None)"

definition VG_has_edge :: "VG \<Rightarrow> node_type \<times> node_type \<Rightarrow> bool" where
  "VG_has_edge g e =
     (e \<in> edges g \<or> (Node_reverse (snd e), Node_reverse (fst e)) \<in> edges g)"

definition VG_add_node :: "VG \<Rightarrow> id_t \<times> string \<Rightarrow> VG" where
  "VG_add_node g node =
     (if VG_has_node g (fst node) then g else g\<lparr>nodes := (nodes g)(fst node \<mapsto> snd node)\<rparr>)"

definition VG_add_edge :: "VG \<Rightarrow> node_type \<times> node_type \<Rightarrow> VG" where
  "VG_add_edge g e = g\<lparr>edges := insert e (edges g)\<rparr>"

definition VG_extend :: "VG \<Rightarrow> VG \<Rightarrow> VG" where
  "VG_extend g other = \<lparr>nodes = nodes other ++ nodes g, edges = edges g \<union> edges other\<rparr>"

section \<open>The verifier's search\<close>

text \<open>
  \<^verbatim>\<open>verify_path\<close> is a template over the two path types; both are read through
  \<^verbatim>\<open>path_size\<close>, \<^verbatim>\<open>path_node\<close> and \<^verbatim>\<open>path_reverse\<close>, so a path is the list of its
  (id, orientation) steps here.
\<close>

type_synonym step_path = "(id_t \<times> bool) list"

record PathBranch =
  branch_offset :: nat
  branch_curr :: nat
  branch_next :: nat

definition advance :: "PathBranch \<Rightarrow> PathBranch" where
  "advance b = \<lparr>branch_offset = branch_offset b + 1, branch_curr = branch_next b, branch_next = 0\<rparr>"

text \<open>
  \<open>OutOfRange\<close>: an index past the end of a vector or an id the mapping does not cover
  (undefined behaviour in the source). \<open>BadFile\<close>: a mapping file that ends before its
  announced entries.
\<close>

datatype error = OutOfRange | BadFile

text \<open>
  The inner loop of \<^verbatim>\<open>verify_path\<close>: \<^verbatim>\<open>while (branch.offset + 1 < path_size(path))\<close>. The
  stack \<open>branches\<close> is kept with its back first: \<^verbatim>\<open>push_back\<close> is \<open>#\<close>. The result is the
  branch and the stack when the loop is left, by its condition or by \<^verbatim>\<open>break\<close>.
\<close>

function extend_branch ::
  "step_path \<Rightarrow> VG \<Rightarrow> (id_t \<rightharpoonup> id_t list) \<Rightarrow> PathBranch \<Rightarrow> node_type \<Rightarrow> nat \<Rightarrow> PathBranch list
   \<Rightarrow> error + PathBranch \<times> PathBranch list" where
  "extend_branch path unfolded reverse_mapping branch curr_node curr_duplicates branches =
     (if branch_offset branch + 1 < length path then
        (let node_id = fst (path ! (branch_offset branch + 1));
             other = (if branch_curr branch + 1 < curr_duplicates
                      then \<lparr>branch_offset = branch_offset branch,
                            branch_curr = branch_curr branch + 1, branch_next = 0\<rparr> # branches
                      else branches)
         in case (case reverse_mapping node_id of
                    None \<Rightarrow> Inr (0, node_id, other)
                  | Some duplicates \<Rightarrow>
                      if branch_next branch < length duplicates then
                        Inr (length duplicates, duplicates ! branch_next branch,
                             if branch_next branch + 1 < length duplicates
                             then \<lparr>branch_offset = branch_offset branch,
                                   branch_curr = branch_curr branch,
                                   branch_next = branch_next branch + 1\<rparr> # branches
                             else other)
                      else Inl OutOfRange) of
              Inl e \<Rightarrow> Inl e
            | Inr (next_duplicates, node_id, branches) \<Rightarrow>
                (let next = Node_encode node_id (snd (path ! (branch_offset branch + 1))) in
                 if \<not> VG_has_edge unfolded (curr_node, next) then Inr (branch, branches)
                 else extend_branch path unfolded reverse_mapping (advance branch) next
                        next_duplicates (if next_duplicates \<le> 1 then [] else branches)))
      else Inr (branch, branches))"
  by pat_completeness auto
termination
  by (relation "measure (\<lambda>(path, unfolded, rm, branch, curr_node, cd, branches).
                  length path - branch_offset branch)")
     (auto simp: advance_def)

text \<open>
  One round of the outer loop of \<^verbatim>\<open>verify_path\<close>, for the branch popped from the stack:
  \<open>Found\<close> is \<^verbatim>\<open>return true\<close>, \<open>Pending\<close> the stack the loop goes on with.
\<close>

datatype outcome = Found | Failed error | Pending "PathBranch list"

definition explore_branch ::
  "step_path \<Rightarrow> VG \<Rightarrow> (id_t \<rightharpoonup> id_t list) \<Rightarrow> PathBranch \<Rightarrow> PathBranch list \<Rightarrow> outcome" where
  "explore_branch path unfolded reverse_mapping branch branches =
     (if branch_offset branch < length path then
        (let node_id = fst (path ! branch_offset branch) in
         case (case reverse_mapping node_id of
                 None \<Rightarrow> Inr (0, node_id)
               | Some duplicates \<Rightarrow>
                   if branch_curr branch < length duplicates
                   then Inr (length duplicates, duplicates ! branch_curr branch)
                   else Inl OutOfRange) of
           Inl e \<Rightarrow> Failed e
         | Inr (curr_duplicates, node_id) \<Rightarrow>
             (case extend_branch path unfolded reverse_mapping branch
                     (Node_encode node_id (snd (path ! branch_offset branch)))
                     curr_duplicates branches of
                Inl e \<Rightarrow> Failed e
              | Inr (branch, branches) \<Rightarrow>
                  if branch_offset branch + 1 \<ge> length path then Found
                  else Pending branches))
      else Failed OutOfRange)"

text \<open>
  The outer loop, \<^verbatim>\<open>while (!branches.empty())\<close>. \<open>None\<close> is the loop that never ends.
\<close>

partial_function (option) verify_branches ::
  "PathBranch list \<Rightarrow> step_path \<Rightarrow> VG \<Rightarrow> (id_t \<rightharpoonup> id_t list) \<Rightarrow> (error + bool) option" where
  "verify_branches branches path unfolded reverse_mapping =
     (case branches of
        [] \<Rightarrow> Some (Inr False)
      | branch # rest \<Rightarrow>
          (case explore_branch path unfolded reverse_mapping branch rest of
             Found \<Rightarrow> Some (Inr True)
           | Failed e \<Rightarrow> Some (Inl e)
           | Pending pending \<Rightarrow> verify_branches pending path unfolded reverse_mapping))"

definition verify_path ::
  "step_path \<Rightarrow> VG \<Rightarrow> (id_t \<rightharpoonup> id_t list) \<Rightarrow> (error + bool) option" where
  "verify_path path unfolded reverse_mapping =
     (if length path < 2 then Some (Inr True)
      else verify_branches [\<lparr>branch_offset = 0, branch_curr = 0, branch_next = 0\<rparr>]
             path unfolded reverse_mapping)"

section \<open>The backing indexes\<close>

text \<open>
  Modelled from the spec: the reference-path index \<^verbatim>\<open>xg::XG\<close>, which is not part of the
  sources. It is an immutable index of the reference paths over the original graph,
  queried by path rank (from 1), and of the sequences of the original nodes.
  \<^verbatim>\<open>node_ranks_in_path\<close> is the sorted list of the positions at which a node occurs on a
  path.
\<close>

record XG =
  xg_paths :: "step_path list"
  xg_sequence :: "id_t \<Rightarrow> string"

definition max_path_rank :: "XG \<Rightarrow> nat" where
  "max_path_rank x = length (xg_paths x)"

definition get_path :: "XG \<Rightarrow> nat \<Rightarrow> step_path" where
  "get_path x path_rank = xg_paths x ! (path_rank - 1)"

definition node_ranks_in_path :: "XG \<Rightarrow> id_t \<Rightarrow> nat \<Rightarrow> nat list" where
  "node_ranks_in_path x node_id path_rank =
     filter (\<lambda>i. fst (get_path x path_rank ! i) = node_id) [0 ..< length (get_path x path_rank)]"

definition xg_node :: "XG \<Rightarrow> id_t \<Rightarrow> id_t \<times> string" where
  "xg_node x node_id = (node_id, xg_sequence x node_id)"

text \<open>\<^verbatim>\<open>gbwt::Node::encode(path.node(i), path.is_reverse(i))\<close>.\<close>

definition path_handle :: "step_path \<Rightarrow> nat \<Rightarrow> node_type" where
  "path_handle path i = Node_encode (fst (path ! i)) (snd (path ! i))"

text \<open>
  The haplotype index \<^verbatim>\<open>gbwt::GBWT\<close> is not part of the sources, and the spec gives only
  its interface: the operations the unfolder calls are the fields of this record, over a
  type \<open>'s\<close> of search states, and every theorem below holds for whatever they compute.
\<close>

record 's GBWT =
  gbwt_effective :: nat
  gbwt_toNode :: "nat \<Rightarrow> node_type"
  gbwt_edges :: "node_type \<Rightarrow> (node_type \<times> nat) list"
  gbwt_endmarker :: node_type
  gbwt_find :: "node_type \<Rightarrow> 's"
  gbwt_extend :: "'s \<Rightarrow> node_type \<Rightarrow> 's"
  gbwt_state_empty :: "'s \<Rightarrow> bool"
  gbwt_state_node :: "'s \<Rightarrow> node_type"
  gbwt_sequences :: nat
  gbwt_extract :: "nat \<Rightarrow> path_type"

text \<open>An index without threads: no node component, no sequence, every search empty.\<close>

definition empty_gbwt :: "unit GBWT" where
  "empty_gbwt =
     \<lparr>gbwt_effective = 0, gbwt_toNode = (\<lambda>_. 0), gbwt_edges = (\<lambda>_. []), gbwt_endmarker = 0,
      gbwt_find = (\<lambda>_. ()), gbwt_extend = (\<lambda>_ _. ()), gbwt_state_empty = (\<lambda>_. True),
      gbwt_state_node = (\<lambda>_. 0), gbwt_sequences = 0, gbwt_extract = (\<lambda>_. [])\<rparr>"

text \<open>
  What the unfolder is built on: the two indexes, and three things the sources leave to
  the containers: the graph store's split of a graph into its weakly connected components
  (\<^verbatim>\<open>disjoint_subgraphs\<close>), the order in which it lists the edges of a node
  (\<^verbatim>\<open>edges_of\<close>), and the order in which the hash set \<^verbatim>\<open>border\<close> is iterated (\<open>elements\<close>).
\<close>

record 's Indexes =
  xg_index :: XG
  gbwt_index :: "'s GBWT"
  disjoint_subgraphs :: "VG \<Rightarrow> VG list"
  edges_of :: "VG \<Rightarrow> id_t \<Rightarrow> (node_type \<times> node_type) list"
  elements :: "id_t set \<Rightarrow> id_t list"

section \<open>Restoring and complementing\<close>

text \<open>
  The body shared by \<^verbatim>\<open>restore_paths\<close> and \<^verbatim>\<open>complement_components\<close>: when \<open>graph\<close> lacks
  the candidate edge, both end nodes and the edge are added to \<open>target\<close>.
\<close>

definition add_missing_edge :: "XG \<Rightarrow> VG \<Rightarrow> node_type \<times> node_type \<Rightarrow> VG \<Rightarrow> VG" where
  "add_missing_edge x graph candidate target =
     (if \<not> VG_has_edge graph candidate then
        VG_add_edge
          (VG_add_node (VG_add_node target (xg_node x (Node_id (fst candidate))))
             (xg_node x (Node_id (snd candidate))))
          candidate
      else target)"

definition restore_path :: "XG \<Rightarrow> step_path \<Rightarrow> VG \<Rightarrow> VG" where
  "restore_path x path graph =
     (if length path = 0 then graph
      else snd (fold (\<lambda>i (prev, graph).
                  let curr = path_handle path i
                  in (curr, add_missing_edge x graph (prev, curr) graph))
                [1 ..< length path] (path_handle path 0, graph)))"

text \<open>
  \<^verbatim>\<open>PhaseUnfolder::restore_paths\<close>. The method is \<^verbatim>\<open>const\<close>: it reads the reference paths
  and writes the graph, and has no access to the node mapping.
\<close>

definition restore_paths :: "XG \<Rightarrow> VG \<Rightarrow> VG" where
  "restore_paths x graph =
     fold (\<lambda>path_rank. restore_path x (get_path x path_rank)) [1 ..< max_path_rank x + 1] graph"

definition complement_path :: "XG \<Rightarrow> VG \<Rightarrow> step_path \<Rightarrow> VG \<Rightarrow> VG" where
  "complement_path x graph path complement =
     (if length path = 0 then complement
      else snd (fold (\<lambda>i (prev, complement).
                  let curr = path_handle path i
                  in (curr, add_missing_edge x graph (prev, curr) complement))
                [1 ..< length path] (path_handle path 0, complement)))"

definition complement_threads :: "XG \<Rightarrow> 's GBWT \<Rightarrow> VG \<Rightarrow> nat \<Rightarrow> VG \<Rightarrow> VG" where
  "complement_threads x h graph gbwt_comp complement =
     (let gbwt_node = gbwt_toNode h gbwt_comp in
      fold (\<lambda>outedge complement.
              if fst outedge = gbwt_endmarker h then complement
              else add_missing_edge x graph (gbwt_node, fst outedge) complement)
           (gbwt_edges h gbwt_node) complement)"

definition complement_graph :: "'s Indexes \<Rightarrow> VG \<Rightarrow> VG" where
  "complement_graph ix graph =
     (let x = xg_index ix;
          complement = fold (\<lambda>path_rank. complement_path x graph (get_path x path_rank))
                         [1 ..< max_path_rank x + 1] VG_empty
      in fold (complement_threads x (gbwt_index ix) graph)
           [1 ..< gbwt_effective (gbwt_index ix)] complement)"

text \<open>\<^verbatim>\<open>PhaseUnfolder::complement_components\<close>.\<close>

definition complement_components :: "'s Indexes \<Rightarrow> VG \<Rightarrow> VG list" where
  "complement_components ix graph = disjoint_subgraphs ix (complement_graph ix graph)"

section \<open>Enumerating the walks\<close>

text \<open>
  The two loops of \<^verbatim>\<open>generate_paths\<close> at one occurrence: forward from index \<open>i\<close> upwards,
  backward from index \<open>j + 1\<close> down to 1 reading position \<open>j\<close> with its orientation
  flipped. Both stop at the first edge the component lacks and after the first border
  node they append.
\<close>

function forward_walk ::
  "step_path \<Rightarrow> VG \<Rightarrow> id_t set \<Rightarrow> nat \<Rightarrow> node_type \<Rightarrow> path_type \<Rightarrow> path_type" where
  "forward_walk path component border_set i prev buffer =
     (if i < length path then
        (let curr = path_handle path i in
         if \<not> VG_has_edge component (prev, curr) then buffer
         else if Node_id curr \<in> border_set then buffer @ [curr]
         else forward_walk path component border_set (i + 1) curr (buffer @ [curr]))
      else buffer)"
  by pat_completeness auto
termination
  by (relation "measure (\<lambda>(path, component, border_set, i, prev, buffer). length path - i)") auto

fun backward_walk ::
  "step_path \<Rightarrow> VG \<Rightarrow> id_t set \<Rightarrow> nat \<Rightarrow> node_type \<Rightarrow> path_type \<Rightarrow> path_type" where
  "backward_walk path component border_set 0 prev buffer = buffer"
| "backward_walk path component border_set (Suc j) prev buffer =
     (let curr = Node_encode (fst (path ! j)) (\<not> snd (path ! j)) in
      if \<not> VG_has_edge component (prev, curr) then buffer
      else if Node_id curr \<in> border_set then buffer @ [curr]
      else backward_walk path component border_set j curr (buffer @ [curr]))"

definition generate_occurrence :: "step_path \<Rightarrow> VG \<Rightarrow> nat \<Rightarrow> PhaseUnfolder \<Rightarrow> PhaseUnfolder" where
  "generate_occurrence path component occurrence st =
     (let forward_prev = path_handle path occurrence;
          st = insert_path (forward_walk path component (border st) (occurrence + 1)
                              forward_prev [forward_prev]) st;
          backward_prev = Node_encode (fst (path ! occurrence)) (\<not> snd (path ! occurrence))
      in insert_path (backward_walk path component (border st) occurrence
                        backward_prev [backward_prev]) st)"

text \<open>\<^verbatim>\<open>PhaseUnfolder::generate_paths\<close>.\<close>

definition generate_paths :: "XG \<Rightarrow> VG \<Rightarrow> id_t \<Rightarrow> PhaseUnfolder \<Rightarrow> PhaseUnfolder" where
  "generate_paths x component from st =
     fold (\<lambda>path_rank.
             fold (generate_occurrence (get_path x path_rank) component)
               (node_ranks_in_path x from path_rank))
       [1 ..< max_path_rank x + 1] st"

text \<open>
  \<^verbatim>\<open>create_state\<close> and \<^verbatim>\<open>extend_state\<close>. The stack \<^verbatim>\<open>states\<close> is empty whenever
  \<^verbatim>\<open>generate_threads\<close> is entered or left, so it is passed along here instead of being a
  field of the state; its top is the head of the list.
\<close>

definition create_state ::
  "'s GBWT \<Rightarrow> id_t \<Rightarrow> bool \<Rightarrow> ('s \<times> path_type) list \<Rightarrow> ('s \<times> path_type) list" where
  "create_state h node is_reverse states =
     (let search = gbwt_find h (Node_encode node is_reverse) in
      if gbwt_state_empty h search then states
      else (search, [gbwt_state_node h search]) # states)"

definition extend_state ::
  "'s GBWT \<Rightarrow> 's \<times> path_type \<Rightarrow> id_t \<Rightarrow> bool \<Rightarrow> ('s \<times> path_type) list
   \<Rightarrow> bool \<times> ('s \<times> path_type) list" where
  "extend_state h state node is_reverse states =
     (let search = gbwt_extend h (fst state) (Node_encode node is_reverse) in
      if gbwt_state_empty h search then (False, states)
      else (True, (search, snd state @ [gbwt_state_node h search]) # states))"

text \<open>
  The body of the loop over the edges of the current node, on the pair
  (\<open>was_extended\<close>, stack). An edge \<open>(from, to)\<close> has \<^verbatim>\<open>from_start\<close> when \<open>from\<close> is reverse
  and \<^verbatim>\<open>to_end\<close> when \<open>to\<close> is reverse.
\<close>

definition extend_over_edge ::
  "'s GBWT \<Rightarrow> 's \<times> path_type \<Rightarrow> id_t \<Rightarrow> bool \<Rightarrow> node_type \<times> node_type
   \<Rightarrow> bool \<times> ('s \<times> path_type) list \<Rightarrow> bool \<times> ('s \<times> path_type) list" where
  "extend_over_edge h state node is_reverse edge = (\<lambda>(was_extended, states).
     if Node_id (fst edge) = node \<and> Node_is_reverse (fst edge) = is_reverse then
       (let (extended, states) =
              extend_state h state (Node_id (snd edge)) (Node_is_reverse (snd edge)) states
        in (was_extended \<or> extended, states))
     else if Node_id (snd edge) = node \<and> Node_is_reverse (snd edge) \<noteq> is_reverse then
       (let (extended, states) =
              extend_state h state (Node_id (fst edge)) (\<not> Node_is_reverse (fst edge)) states
        in (was_extended \<or> extended, states))
     else (was_extended, states))"

text \<open>One round of the loop of \<^verbatim>\<open>generate_threads\<close>, for the state popped from the stack.\<close>

definition thread_step ::
  "'s Indexes \<Rightarrow> VG \<Rightarrow> 's \<times> path_type \<Rightarrow> ('s \<times> path_type) list \<Rightarrow> PhaseUnfolder
   \<Rightarrow> ('s \<times> path_type) list \<times> PhaseUnfolder" where
  "thread_step ix component state states st =
     (let h = gbwt_index ix;
          node = Node_id (gbwt_state_node h (fst state));
          is_reverse = Node_is_reverse (gbwt_state_node h (fst state))
      in if length (snd state) \<ge> 2 \<and> node \<in> border st then (states, insert_path (snd state) st)
         else
           (let (was_extended, states) =
                  fold (extend_over_edge h state node is_reverse) (edges_of ix component node)
                    (False, states)
            in if \<not> was_extended then (states, insert_path (snd state) st)
               else (states, st)))"

text \<open>
  \<^verbatim>\<open>while (!this->states.empty())\<close>: whether the loop ends depends on the haplotype index,
  and \<open>None\<close> is the loop that never ends.
\<close>

partial_function (option) thread_loop ::
  "('s \<times> path_type) list \<Rightarrow> 's Indexes \<Rightarrow> VG \<Rightarrow> PhaseUnfolder \<Rightarrow> PhaseUnfolder option" where
  "thread_loop states ix component st =
     (case states of
        [] \<Rightarrow> Some st
      | state # rest \<Rightarrow>
          (case thread_step ix component state rest st of
             (states', st') \<Rightarrow> thread_loop states' ix component st'))"

text \<open>\<^verbatim>\<open>PhaseUnfolder::generate_threads\<close>.\<close>

definition generate_threads ::
  "'s Indexes \<Rightarrow> VG \<Rightarrow> id_t \<Rightarrow> PhaseUnfolder \<Rightarrow> PhaseUnfolder option" where
  "generate_threads ix component from st =
     thread_loop
       (create_state (gbwt_index ix) from True (create_state (gbwt_index ix) from False []))
       ix component st"

section \<open>Unfolding\<close>

text \<open>The loop of \<^verbatim>\<open>unfold_component\<close> over the border nodes.\<close>

fun unfold_starts ::
  "'s Indexes \<Rightarrow> VG \<Rightarrow> id_t list \<Rightarrow> PhaseUnfolder \<Rightarrow> PhaseUnfolder option" where
  "unfold_starts ix component [] st = Some st"
| "unfold_starts ix component (start_node # rest) st =
     (case generate_threads ix component start_node
             (generate_paths (xg_index ix) component start_node st) of
        None \<Rightarrow> None
      | Some st' \<Rightarrow> unfold_starts ix component rest st')"

text \<open>
  The edges \<^verbatim>\<open>unfold_component\<close> creates from the tries: \<open>(from, duplicate)\<close> for a prefix
  entry, \<open>(duplicate, to)\<close> for a suffix entry, and the crossing edges.
\<close>

definition trie_edges :: "PhaseUnfolder \<Rightarrow> (node_type \<times> node_type) set" where
  "trie_edges st =
     (\<lambda>(key, to). (fst key, to)) ` Map.graph (prefixes st) \<union>
     (\<lambda>(key, from). (from, snd key)) ` Map.graph (suffixes st) \<union>
     crossing_edges st"

text \<open>
  The three loops that fill \<open>unfolded\<close>. \<^verbatim>\<open>insert_node\<close> adds, for each end of each edge, a
  node with the handle's own id and the sequence of the node the mapping gives for that
  id; a node that \<open>unfolded\<close> already has is kept. The result does not depend on the order
  in which the hash containers are iterated.
\<close>

definition assemble :: "XG \<Rightarrow> PhaseUnfolder \<Rightarrow> VG \<Rightarrow> error + VG" where
  "assemble x st unfolded =
     (let inserted = Node_id ` (fst ` trie_edges st \<union> snd ` trie_edges st) in
      if \<exists>i \<in> inserted. NodeMapping_apply (node_mapping st) i = None then Inl OutOfRange
      else Inr \<lparr>nodes = (\<lambda>i. case nodes unfolded i of
                               Some sequence \<Rightarrow> Some sequence
                             | None \<Rightarrow>
                                 if i \<in> inserted
                                 then map_option (xg_sequence x) (NodeMapping_apply (node_mapping st) i)
                                 else None),
                edges = edges unfolded \<union> trie_edges st\<rparr>)"

text \<open>
  \<^verbatim>\<open>PhaseUnfolder::unfold_component\<close>: the number of crossing edges, the unfolded graph and
  the state with the working sets of the component cleared.
\<close>

definition unfold_component ::
  "'s Indexes \<Rightarrow> VG \<Rightarrow> VG \<Rightarrow> VG \<Rightarrow> PhaseUnfolder
   \<Rightarrow> (error + nat \<times> VG \<times> PhaseUnfolder) option" where
  "unfold_component ix component graph unfolded st =
     (let st = st\<lparr>border := border st \<union> {i \<in> dom (nodes component). VG_has_node graph i}\<rparr> in
      case unfold_starts ix component (elements ix (border st)) st of
        None \<Rightarrow> None
      | Some st \<Rightarrow>
          Some (case assemble (xg_index ix) st unfolded of
                  Inl e \<Rightarrow> Inl e
                | Inr unfolded \<Rightarrow>
                    Inr (card (crossing_edges st), unfolded,
                         st\<lparr>border := {}, prefixes := Map.empty, suffixes := Map.empty,
                            crossing_edges := {}\<rparr>)))"

fun unfold_components ::
  "'s Indexes \<Rightarrow> VG \<Rightarrow> VG list \<Rightarrow> nat \<times> VG \<times> PhaseUnfolder
   \<Rightarrow> (error + nat \<times> VG \<times> PhaseUnfolder) option" where
  "unfold_components ix graph [] acc = Some (Inr acc)"
| "unfold_components ix graph (component # rest) acc =
     (case unfold_component ix component graph (fst (snd acc)) (snd (snd acc)) of
        None \<Rightarrow> None
      | Some (Inl e) \<Rightarrow> Some (Inl e)
      | Some (Inr (paths, unfolded, st)) \<Rightarrow>
          unfold_components ix graph rest (fst acc + paths, unfolded, st))"

text \<open>\<^verbatim>\<open>PhaseUnfolder::unfold\<close>; the progress messages are left out.\<close>

definition unfold :: "'s Indexes \<Rightarrow> VG \<Rightarrow> PhaseUnfolder \<Rightarrow> (error + VG \<times> PhaseUnfolder) option" where
  "unfold ix graph st =
     (case unfold_components ix graph (complement_components ix graph) (0, VG_empty, st) of
        None \<Rightarrow> None
      | Some (Inl e) \<Rightarrow> Some (Inl e)
      | Some (Inr (haplotype_paths, unfolded, st)) \<Rightarrow> Some (Inr (VG_extend graph unfolded, st)))"

section \<open>Verifying the paths\<close>

text \<open>
  Modelled from the spec: \<^verbatim>\<open>gcsa::removeDuplicates\<close>, which is not part of the sources. Each
  list of candidates is deduplicated; the model sorts the list and drops the repeated
  entries.
\<close>

definition removeDuplicates :: "id_t list \<Rightarrow> id_t list" where
  "removeDuplicates xs = remdups_adj (sort xs)"

definition add_duplicate ::
  "NodeMapping \<Rightarrow> VG \<Rightarrow> size_type \<Rightarrow> error + (id_t \<rightharpoonup> id_t list) \<Rightarrow> error + (id_t \<rightharpoonup> id_t list)" where
  "add_duplicate m unfolded duplicate acc =
     (case acc of
        Inl e \<Rightarrow> Inl e
      | Inr reverse_mapping \<Rightarrow>
          (case NodeMapping_apply m duplicate of
             None \<Rightarrow> Inl OutOfRange
           | Some original_id \<Rightarrow>
               Inr (reverse_mapping(original_id \<mapsto>
                      (case reverse_mapping original_id of None \<Rightarrow> [] | Some ds \<Rightarrow> ds)
                      @ [duplicate]
                      @ (if VG_has_node unfolded original_id then [original_id] else [])))))"

definition build_reverse_mapping :: "NodeMapping \<Rightarrow> VG \<Rightarrow> error + (id_t \<rightharpoonup> id_t list)" where
  "build_reverse_mapping m unfolded =
     (case fold (add_duplicate m unfolded)
             (map of_nat [unat (first_node m) ..< unat (next_node m)]) (Inr Map.empty) of
        Inl e \<Rightarrow> Inl e
      | Inr reverse_mapping \<Rightarrow> Inr (map_option removeDuplicates \<circ> reverse_mapping))"

text \<open>The reference paths by rank, then the threads of the haplotype index.\<close>

definition indexed_paths :: "'s Indexes \<Rightarrow> step_path list" where
  "indexed_paths ix =
     map (get_path (xg_index ix)) [1 ..< max_path_rank (xg_index ix) + 1] @
     map (\<lambda>i. map (\<lambda>node. (Node_id node, Node_is_reverse node)) (gbwt_extract (gbwt_index ix) i))
       [0 ..< gbwt_sequences (gbwt_index ix)]"

text \<open>
  The workers of the parallel loop share only the counter \<open>failures\<close>, which each of them
  increments when its path fails; the count does not depend on their schedule. There is
  no count when the search of a path does not end.
\<close>

definition count_failures :: "(error + bool) option list \<Rightarrow> (error + nat) option" where
  "count_failures results =
     (if None \<in> set results then None
      else case [e. Some (Inl e) \<leftarrow> results] of
             e # _ \<Rightarrow> Some (Inl e)
           | [] \<Rightarrow> Some (Inr (length (filter (\<lambda>r. r = Some (Inr False)) results))))"

text \<open>\<^verbatim>\<open>PhaseUnfolder::verify_paths\<close>.\<close>

definition verify_paths :: "'s Indexes \<Rightarrow> VG \<Rightarrow> PhaseUnfolder \<Rightarrow> (error + nat) option" where
  "verify_paths ix unfolded st =
     (case build_reverse_mapping (node_mapping st) unfolded of
        Inl e \<Rightarrow> Some (Inl e)
      | Inr reverse_mapping \<Rightarrow>
          count_failures (map (\<lambda>path. verify_path path unfolded reverse_mapping) (indexed_paths ix)))"

section \<open>Saving and loading the mapping\<close>

text \<open>
  Modelled from the spec: the serialized form of the node mapping, written and read by
  \<^verbatim>\<open>gcsa::NodeMapping::serialize\<close> and \<^verbatim>\<open>load\<close>, which are not part of the sources. A file
  is a header of three 64-bit values, \<open>first_node\<close>, \<open>next_node\<close> and \<open>mapping_size\<close>,
  followed by \<open>mapping_size\<close> 64-bit entries; a file is the list of its 64-bit values
  here. The spec does not say what loading a shorter file does: the model reports
  \<open>BadFile\<close>.
\<close>

definition NodeMapping_serialize :: "NodeMapping \<Rightarrow> size_type list" where
  "NodeMapping_serialize m =
     [first_node m, next_node m, of_nat (length (mapping m))] @ mapping m"

definition NodeMapping_load :: "size_type list \<Rightarrow> NodeMapping option" where
  "NodeMapping_load file =
     (case file of
        first # next # mapping_size # entries \<Rightarrow>
          if unat mapping_size \<le> length entries
          then Some \<lparr>first_node = first, next_node = next,
                     mapping = take (unat mapping_size) entries\<rparr>
          else None
      | _ \<Rightarrow> None)"

text \<open>
  The part of the environment the two methods touch: the files that exist, with their
  contents, the names under which a file can be created, and what has been written to
  the standard error stream.
\<close>

record FileSystem =
  files :: "string \<rightharpoonup> size_type list"
  creatable :: "string \<Rightarrow> bool"
  standard_error :: "string list"

text \<open>\<^verbatim>\<open>PhaseUnfolder::write_mapping\<close>: the stream \<open>out\<close> is good when the file can be created.\<close>

definition write_mapping :: "FileSystem \<Rightarrow> string \<Rightarrow> PhaseUnfolder \<Rightarrow> FileSystem" where
  "write_mapping fs filename st =
     (if \<not> creatable fs filename then
        fs\<lparr>standard_error := standard_error fs @
              [''[PhaseUnfolder]: cannot create mapping file '' @ filename]\<rparr>
      else fs\<lparr>files := (files fs)(filename \<mapsto> NodeMapping_serialize (node_mapping st))\<rparr>)"

text \<open>\<^verbatim>\<open>PhaseUnfolder::read_mapping\<close>: the stream \<open>in\<close> is good when the file exists.\<close>

definition read_mapping ::
  "FileSystem \<Rightarrow> string \<Rightarrow> PhaseUnfolder \<Rightarrow> FileSystem \<times> (error + PhaseUnfolder)" where
  "read_mapping fs filename st =
     (case files fs filename of
        None \<Rightarrow>
          (fs\<lparr>standard_error := standard_error fs @
                [''[PhaseUnfolder]: cannot open mapping file '' @ filename]\<rparr>,
           Inr st)
      | Some file \<Rightarrow>
          (fs, case NodeMapping_load file of
                 None \<Rightarrow> Inl BadFile
               | Some m \<Rightarrow> Inr (st\<lparr>node_mapping := m\<rparr>)))"

section \<open>Notions used in the statements\<close>

text \<open>
  A mapping is well formed when its table has one entry for each id from \<open>first_node\<close>
  up to \<open>next_node\<close>; the constructor and \<open>insert\<close> keep it so.
\<close>

definition mapping_wf :: "NodeMapping \<Rightarrow> bool" where
  "mapping_wf m \<longleftrightarrow> unat (next_node m) = unat (first_node m) + length (mapping m)"

text \<open>The invariant of the tries: every stored duplicate maps back to the node it copies.\<close>

definition tries_ok :: "PhaseUnfolder \<Rightarrow> bool" where
  "tries_ok st \<longleftrightarrow>
     mapping_wf (node_mapping st) \<and>
     (\<forall>a b v. prefixes st (a, b) = Some v \<longrightarrow>
        NodeMapping_apply (node_mapping st) (Node_id v) = Some (Node_id b) \<and>
        Node_is_reverse v = Node_is_reverse b) \<and>
     (\<forall>a b v. suffixes st (a, b) = Some v \<longrightarrow>
        NodeMapping_apply (node_mapping st) (Node_id v) = Some (Node_id a) \<and>
        Node_is_reverse v = Node_is_reverse a)"

text \<open>
  While a walk is threaded through a trie, the parent handle of the next key is newer
  than the parent of every key stored so far, so the next key is new.
\<close>

definition prefix_fresh :: "node_type \<Rightarrow> PhaseUnfolder \<Rightarrow> bool" where
  "prefix_fresh from st \<longleftrightarrow>
     finite (dom (prefixes st)) \<and>
     (\<forall>a b v. prefixes st (a, b) = Some v \<longrightarrow> unat (Node_id a) < unat (Node_id from)) \<and>
     unat (Node_id from) < unat (next_node (node_mapping st))"

definition suffix_fresh :: "node_type \<Rightarrow> PhaseUnfolder \<Rightarrow> bool" where
  "suffix_fresh to st \<longleftrightarrow>
     finite (dom (suffixes st)) \<and>
     (\<forall>a b v. suffixes st (a, b) = Some v \<longrightarrow> unat (Node_id b) < unat (Node_id to)) \<and>
     unat (Node_id to) < unat (next_node (node_mapping st))"

text \<open>
  The claim about the verifier, in the spec's words: a walk is realized when some choice
  of one candidate per position (the ids listed for the original, or the original itself
  when nothing is listed for it) makes every consecutive edge an edge of the graph.
\<close>

definition candidates :: "(id_t \<rightharpoonup> id_t list) \<Rightarrow> id_t \<Rightarrow> id_t list" where
  "candidates reverse_mapping node_id =
     (case reverse_mapping node_id of None \<Rightarrow> [node_id] | Some duplicates \<Rightarrow> duplicates)"

fun realized_from :: "VG \<Rightarrow> (id_t \<rightharpoonup> id_t list) \<Rightarrow> node_type \<Rightarrow> step_path \<Rightarrow> bool" where
  "realized_from unfolded reverse_mapping curr_node [] = True"
| "realized_from unfolded reverse_mapping curr_node (step # rest) =
     (\<exists>c \<in> set (candidates reverse_mapping (fst step)).
        VG_has_edge unfolded (curr_node, Node_encode c (snd step)) \<and>
        realized_from unfolded reverse_mapping (Node_encode c (snd step)) rest)"

definition realized :: "step_path \<Rightarrow> VG \<Rightarrow> (id_t \<rightharpoonup> id_t list) \<Rightarrow> bool" where
  "realized path unfolded reverse_mapping =
     (case path of
        [] \<Rightarrow> True
      | step # rest \<Rightarrow>
          (\<exists>c \<in> set (candidates reverse_mapping (fst step)).
             realized_from unfolded reverse_mapping (Node_encode c (snd step)) rest))"

text \<open>
  The handles that \<^verbatim>\<open>unfold_component\<close> inserts under their own ids whatever the tries map
  them to: the parent of a prefix key, the parent of a suffix key and both ends of a
  crossing edge.
\<close>

definition anchors :: "PhaseUnfolder \<Rightarrow> node_type set" where
  "anchors st =
     fst ` dom (prefixes st) \<union> snd ` dom (suffixes st) \<union>
     fst ` crossing_edges st \<union> snd ` crossing_edges st"


text \<open>
  Evidence for a node of a component. A reference path supports the node when the node
  is an end of a component edge between two consecutive positions of the path.
\<close>

definition path_support :: "XG \<Rightarrow> VG \<Rightarrow> id_t \<Rightarrow> bool" where
  "path_support x component b \<longleftrightarrow>
     (\<exists>path \<in> set (xg_paths x). \<exists>i.
        Suc i < length path \<and>
        VG_has_edge component (path_handle path i, path_handle path (Suc i)) \<and>
        (fst (path ! i) = b \<or> fst (path ! Suc i) = b))"

















section \<open>Concrete inputs\<close>

text \<open>
  What \<^verbatim>\<open>complement_components\<close> keeps true of the complement graph while it runs over the
  reference paths: every node it has added came with an edge between two consecutive
  positions of a reference path.
\<close>

definition path_edges_inv :: "XG \<Rightarrow> VG \<Rightarrow> bool" where
  "path_edges_inv x c \<longleftrightarrow>
     (\<forall>b. VG_has_node c b \<longrightarrow>
        (\<exists>path \<in> set (xg_paths x). \<exists>i.
           Suc i < length path \<and>
           (path_handle path i, path_handle path (Suc i)) \<in> edges c \<and>
           (fst (path ! i) = b \<or> fst (path ! Suc i) = b)))"

text \<open>
  Scenario (b) of the spec: the reference paths \<open>1+ 2+ 3+\<close> and \<open>1+ 4+ 3+\<close> and no
  haplotype threads. The complement of either graph below is connected, so it is its only
  component; the edges of a node and the border are listed in increasing order.
\<close>

definition scenario_indexes :: "unit Indexes" where
  "scenario_indexes =
     \<lparr>xg_index = \<lparr>xg_paths = [[(1, False), (2, False), (3, False)],
                              [(1, False), (4, False), (3, False)]],
                  xg_sequence = (\<lambda>_. ''A'')\<rparr>,
      gbwt_index = empty_gbwt,
      disjoint_subgraphs = (\<lambda>g. [g]),
      edges_of = (\<lambda>g n. sorted_list_of_set
                          {e \<in> edges g. Node_id (fst e) = n \<or> Node_id (snd e) = n}),
      elements = sorted_list_of_set\<rparr>"

text \<open>The graph of the scenario as the spec gives it: the nodes 1 to 4 and no edge.\<close>

definition scenario_graph :: VG where
  "scenario_graph =
     \<lparr>nodes = [1 \<mapsto> ''A'', 2 \<mapsto> ''A'', 3 \<mapsto> ''A'', 4 \<mapsto> ''A''], edges = {}\<rparr>"

text \<open>The same graph after the nodes 2 and 4 have been pruned as well.\<close>

definition pruned_graph :: VG where
  "pruned_graph = \<lparr>nodes = [1 \<mapsto> ''A'', 3 \<mapsto> ''A''], edges = {}\<rparr>"

text \<open>
  The reference paths \<open>1+ 2+ 3+\<close> and \<open>2+ 4+\<close> with no haplotype threads: over the pruned
  graph the second path lies inside the pruned region and meets no border node.
\<close>

definition inner_path_indexes :: "unit Indexes" where
  "inner_path_indexes =
     \<lparr>xg_index = \<lparr>xg_paths = [[(1, False), (2, False), (3, False)], [(2, False), (4, False)]],
                  xg_sequence = (\<lambda>_. ''A'')\<rparr>,
      gbwt_index = empty_gbwt,
      disjoint_subgraphs = (\<lambda>g. [g]),
      edges_of = (\<lambda>g n. sorted_list_of_set
                          {e \<in> edges g. Node_id (fst e) = n \<or> Node_id (snd e) = n}),
      elements = sorted_list_of_set\<rparr>"

text \<open>
  The edges of the two paths of scenario (b), which both graphs above lack, with their
  end nodes: the complement graph of the scenario.
\<close>

definition scenario_missing :: VG where
  "scenario_missing =
     \<lparr>nodes = [1 \<mapsto> ''A'', 2 \<mapsto> ''A'', 3 \<mapsto> ''A'', 4 \<mapsto> ''A''],
      edges = {(2, 4), (4, 6), (2, 8), (8, 6)}\<rparr>"

text \<open>
  Modelled from the spec: a haplotype index for the examples below, by what the spec says
  of \<^verbatim>\<open>gbwt::GBWT\<close>, an index of threads searched by extension. A search state is the
  sequence of handles matched so far, and it is empty when it is not one of \<open>patterns\<close>,
  the sequences that occur in a thread. The node components are the handles from 2 on,
  and \<open>successors\<close> lists the edges of a handle, with the end-marker 0 at the end of a
  thread.
\<close>

definition thread_gbwt ::
  "nat \<Rightarrow> path_type list \<Rightarrow> path_type list \<Rightarrow> (node_type \<Rightarrow> (node_type \<times> nat) list)
   \<Rightarrow> path_type GBWT" where
  "thread_gbwt effective threads patterns successors =
     \<lparr>gbwt_effective = effective,
      gbwt_toNode = (\<lambda>gbwt_comp. of_nat gbwt_comp + 1),
      gbwt_edges = successors,
      gbwt_endmarker = 0,
      gbwt_find = (\<lambda>node. [node]),
      gbwt_extend = (\<lambda>s node. if s = [] then [] else s @ [node]),
      gbwt_state_empty = (\<lambda>s. s \<notin> set patterns),
      gbwt_state_node = (\<lambda>s. if s = [] then 0 else last s),
      gbwt_sequences = length threads,
      gbwt_extract = (\<lambda>i. threads ! i)\<rparr>"


definition two_way_indexes :: "path_type Indexes" where
  "two_way_indexes =
     \<lparr>xg_index = \<lparr>xg_paths = [], xg_sequence = (\<lambda>_. ''A'')\<rparr>,
      gbwt_index = thread_gbwt 5 [[4, 2], [3, 5]] [[4], [2], [4, 2], [3], [5], [3, 5]]
                     ((\<lambda>_. [])(4 := [(2, 0)], 2 := [(0, 0)], 3 := [(5, 0)], 5 := [(0, 0)])),
      disjoint_subgraphs = (\<lambda>g. [g]),
      edges_of = (\<lambda>g n. filter (\<lambda>e. Node_id (fst e) = n \<or> Node_id (snd e) = n)
                          (sorted_list_of_set (edges g))),
      elements = sorted_list_of_set\<rparr>"

text \<open>
  The graph in which only node 1 is left, and the complement graphs of the two indexes
  over it.
\<close>

definition border_graph :: VG where
  "border_graph = \<lparr>nodes = [1 \<mapsto> ''A''], edges = {}\<rparr>"


definition two_way_missing :: VG where
  "two_way_missing = \<lparr>nodes = [1 \<mapsto> ''A'', 2 \<mapsto> ''A''], edges = {(3, 5), (4, 2)}\<rparr>"

section \<open>Handles\<close>

text \<open>The encoding in bits: the id shifted left by one, with the orientation as bit 0.\<close>

lemma Node_encode_bits: "Node_encode i r = push_bit 1 i OR of_bool r"
proof -
  have "push_bit 1 i + of_bool r = push_bit 1 i OR of_bool r"
    by (rule disjunctive_add_eq_or, rule bit_word_eqI)
      (auto simp: bit_and_iff bit_push_bit_iff bit_of_bool_iff bit_0)
  then show ?thesis by (cases r) (simp_all add: Node_encode_def mult.commute)
qed

lemma Node_is_reverse_bit: "Node_is_reverse h = bit h 0"
  by (simp add: Node_is_reverse_def and_one_eq bit_0 mod_2_eq_odd)

lemma bit_Node_encode:
  "bit (Node_encode i r) n = (if n = 0 then r else n < 64 \<and> bit i (n - 1))"
  unfolding Node_encode_bits
  by (auto simp only: bit_or_iff bit_push_bit_iff bit_of_bool_iff possible_bit_word
        split: if_splits) simp_all

lemma bit_Node_id: "bit (Node_id h) n = (n < 63 \<and> bit h (Suc n))"
  unfolding Node_id_def
  by (auto simp add: bit_drop_bit_eq dest: bit_imp_le_length)

lemma Node_is_reverse_encode: "Node_is_reverse (Node_encode i r) = r"
  by (simp add: Node_is_reverse_bit bit_Node_encode)

lemma bit_below_63: "unat (i::64 word) < 2 ^ 63 \<Longrightarrow> bit i n \<Longrightarrow> n < 63"
proof -
  assume a: "unat i < 2 ^ 63" and b: "bit i n"
  have "i < 2 ^ 63" using a by (simp add: word_less_nat_alt)
  then have "i AND mask 63 = i" by (rule less_mask_eq)
  then have "bit (i AND mask 63) n" using b by simp
  then show ?thesis by (simp add: bit_and_iff bit_mask_iff)
qed

lemma Node_id_encode: "unat i < 2 ^ 63 \<Longrightarrow> Node_id (Node_encode i r) = i"
proof (rule bit_word_eqI)
  fix n assume a: "unat i < 2 ^ 63" and "n < LENGTH(64)"
  show "bit (Node_id (Node_encode i r)) n = bit i n"
    using bit_below_63[OF a, of n] by (auto simp add: bit_Node_encode bit_Node_id)
qed

lemma Node_id_reverse: "Node_id (Node_reverse h) = Node_id h"
  by (rule bit_word_eqI) (auto simp add: bit_Node_id Node_reverse_def bit_xor_iff bit_1_iff)

lemma Node_is_reverse_reverse: "Node_is_reverse (Node_reverse h) = (\<not> Node_is_reverse h)"
  by (auto simp add: Node_is_reverse_bit Node_reverse_def bit_xor_iff bit_1_iff)

(* trie_emplace facts *)


lemma Node_reverse_involution: "Node_reverse (Node_reverse h) = h"
  by (simp add: Node_reverse_def xor.assoc)


section \<open>Orientation symmetry\<close>

lemma reverse_complement_involution: "reverse_complement (reverse_complement p) = p"
  by (simp add: reverse_complement_def rev_map Node_reverse_involution comp_def)

lemma length_reverse_complement: "length (reverse_complement p) = length p"
  by (simp add: reverse_complement_def)

text \<open>
  Claim C6. Inserting a walk and inserting its reverse complement (the reversed sequence
  with every handle flipped) lead to the same state, whatever the tries, the crossing
  edges and the mapping hold before: both calls insert the smaller of the two walks.
\<close>

theorem insert_path_reverse_complement:
  "insert_path (reverse_complement W) st = insert_path W st"
  by (simp add: insert_path_def length_reverse_complement reverse_complement_involution
      min.commute)

section \<open>The midpoint split\<close>

lemma trie_emplace_cases:
  assumes "trie_emplace trie m key node = (dup, trie', m')"
  shows "(trie key \<noteq> None \<and> trie key \<noteq> Some 0 \<and> trie key = Some dup \<and> trie' = trie \<and> m' = m) \<or>
         ((trie key = None \<or> trie key = Some 0) \<and>
          dup = Node_encode (next_node m) (Node_is_reverse node) \<and>
          trie' = trie(key \<mapsto> dup) \<and>
          m' = m\<lparr>next_node := next_node m + 1, mapping := mapping m @ [Node_id node]\<rparr>)"
  using assms
  by (auto simp: trie_emplace_def NodeMapping_insert_def Let_def split: option.splits if_splits)

(* C5 *)

lemma prefix_step_fresh:
  assumes "prefix_fresh from st" and "unat (next_node (node_mapping st)) < 2 ^ 63"
    and "prefix_step p i (from, st) = (from', st')"
  shows "prefix_fresh from' st' \<and>
         dom (prefixes st') = insert (from, p ! i) (dom (prefixes st)) \<and>
         (from, p ! i) \<notin> dom (prefixes st) \<and>
         unat (next_node (node_mapping st')) = Suc (unat (next_node (node_mapping st))) \<and>
         suffixes st' = suffixes st \<and> crossing_edges st' = crossing_edges st"
proof -
  obtain dup trie m where e: "trie_emplace (prefixes st) (node_mapping st) (from, p ! i) (p ! i) = (dup, trie, m)"
    using prod_cases3 by blast
  have fresh: "(from, p ! i) \<notin> dom (prefixes st)"
    using assms(1) unfolding prefix_fresh_def by fastforce
  then have none: "prefixes st (from, p ! i) = None" by auto
  from trie_emplace_cases[OF e] none
  have d: "dup = Node_encode (next_node (node_mapping st)) (Node_is_reverse (p ! i))"
    and t: "trie = (prefixes st)((from, p ! i) \<mapsto> dup)"
    and m: "m = (node_mapping st)\<lparr>next_node := next_node (node_mapping st) + 1,
               mapping := mapping (node_mapping st) @ [Node_id (p ! i)]\<rparr>"
    by auto
  have st': "st' = st\<lparr>node_mapping := m, prefixes := trie\<rparr>" and from': "from' = dup"
    using assms(3) e by (auto simp: prefix_step_def)
  have idd: "Node_id dup = next_node (node_mapping st)"
    using assms(2) by (simp add: d Node_id_encode)
  have nx: "unat (next_node (node_mapping st) + 1) = Suc (unat (next_node (node_mapping st)))"
    using assms(2) by (simp add: unat_word_ariths)
  have old: "\<And>a b v. prefixes st (a, b) = Some v \<Longrightarrow>
      unat (Node_id a) < unat (next_node (node_mapping st))"
    using assms(1) unfolding prefix_fresh_def by (meson less_trans)
  have "prefix_fresh from' st'"
    using assms(1) nx old
    by (auto simp: st' from' t m idd prefix_fresh_def split: if_splits)
  then show ?thesis
    using fresh nx by (auto simp: st' from' t m)
qed

lemma fold_prefix_step_fresh:
  assumes "prefix_fresh from st"
    and "unat (next_node (node_mapping st)) + length idx \<le> 2 ^ 63"
    and "fold (prefix_step p) idx (from, st) = (from', st')"
  shows "prefix_fresh from' st' \<and>
         card (dom (prefixes st')) = card (dom (prefixes st)) + length idx \<and>
         snd ` dom (prefixes st') = snd ` dom (prefixes st) \<union> (!) p ` set idx \<and>
         unat (next_node (node_mapping st')) = unat (next_node (node_mapping st)) + length idx \<and>
         suffixes st' = suffixes st \<and> crossing_edges st' = crossing_edges st"
  using assms
proof (induction idx arbitrary: "from" st)
  case Nil
  then show ?case by simp
next
  case (Cons i idx)
  obtain f1 st1 where s: "prefix_step p i (from, st) = (f1, st1)"
    by (cases "prefix_step p i (from, st)")
  have lt: "unat (next_node (node_mapping st)) < 2 ^ 63" using Cons.prems(2) by simp
  note one = prefix_step_fresh[OF Cons.prems(1) lt s]
  have fin: "finite (dom (prefixes st))" using Cons.prems(1) by (simp add: prefix_fresh_def)
  have rest: "fold (prefix_step p) idx (f1, st1) = (from', st')"
    using Cons.prems(3) s by simp
  have bound: "unat (next_node (node_mapping st1)) + length idx \<le> 2 ^ 63"
    using one Cons.prems(2) by simp
  note ih = Cons.IH[OF _ bound rest]
  have c: "card (dom (prefixes st1)) = Suc (card (dom (prefixes st)))"
    using one fin by simp
  show ?case using one ih c by auto
qed

lemma suffix_step_fresh:
  assumes "suffix_fresh to st" and "unat (next_node (node_mapping st)) < 2 ^ 63"
    and "suffix_step p i (to, st) = (to', st')"
  shows "suffix_fresh to' st' \<and>
         dom (suffixes st') = insert (p ! i, to) (dom (suffixes st)) \<and>
         (p ! i, to) \<notin> dom (suffixes st) \<and>
         unat (next_node (node_mapping st')) = Suc (unat (next_node (node_mapping st))) \<and>
         prefixes st' = prefixes st \<and> crossing_edges st' = crossing_edges st"
proof -
  obtain dup trie m where e: "trie_emplace (suffixes st) (node_mapping st) (p ! i, to) (p ! i) = (dup, trie, m)"
    using prod_cases3 by blast
  have fresh: "(p ! i, to) \<notin> dom (suffixes st)"
    using assms(1) unfolding suffix_fresh_def by fastforce
  then have none: "suffixes st (p ! i, to) = None" by auto
  from trie_emplace_cases[OF e] none
  have d: "dup = Node_encode (next_node (node_mapping st)) (Node_is_reverse (p ! i))"
    and t: "trie = (suffixes st)((p ! i, to) \<mapsto> dup)"
    and m: "m = (node_mapping st)\<lparr>next_node := next_node (node_mapping st) + 1,
               mapping := mapping (node_mapping st) @ [Node_id (p ! i)]\<rparr>"
    by auto
  have st': "st' = st\<lparr>node_mapping := m, suffixes := trie\<rparr>" and to': "to' = dup"
    using assms(3) e by (auto simp: suffix_step_def)
  have idd: "Node_id dup = next_node (node_mapping st)"
    using assms(2) by (simp add: d Node_id_encode)
  have nx: "unat (next_node (node_mapping st) + 1) = Suc (unat (next_node (node_mapping st)))"
    using assms(2) by (simp add: unat_word_ariths)
  have old: "\<And>a b v. suffixes st (a, b) = Some v \<Longrightarrow>
      unat (Node_id b) < unat (next_node (node_mapping st))"
    using assms(1) unfolding suffix_fresh_def by (meson less_trans)
  have "suffix_fresh to' st'"
    using assms(1) nx old
    by (auto simp: st' to' t m idd suffix_fresh_def split: if_splits)
  then show ?thesis
    using fresh nx by (auto simp: st' to' t m)
qed

lemma fold_suffix_step_fresh:
  assumes "suffix_fresh to st"
    and "unat (next_node (node_mapping st)) + length idx \<le> 2 ^ 63"
    and "fold (suffix_step p) idx (to, st) = (to', st')"
  shows "suffix_fresh to' st' \<and>
         card (dom (suffixes st')) = card (dom (suffixes st)) + length idx \<and>
         fst ` dom (suffixes st') = fst ` dom (suffixes st) \<union> (!) p ` set idx \<and>
         unat (next_node (node_mapping st')) = unat (next_node (node_mapping st)) + length idx \<and>
         prefixes st' = prefixes st \<and> crossing_edges st' = crossing_edges st"
  using assms
proof (induction idx arbitrary: to st)
  case Nil
  then show ?case by simp
next
  case (Cons i idx)
  obtain f1 st1 where s: "suffix_step p i (to, st) = (f1, st1)"
    by (cases "suffix_step p i (to, st)")
  have lt: "unat (next_node (node_mapping st)) < 2 ^ 63" using Cons.prems(2) by simp
  note one = suffix_step_fresh[OF Cons.prems(1) lt s]
  have fin: "finite (dom (suffixes st))" using Cons.prems(1) by (simp add: suffix_fresh_def)
  have rest: "fold (suffix_step p) idx (f1, st1) = (to', st')"
    using Cons.prems(3) s by simp
  have bound: "unat (next_node (node_mapping st1)) + length idx \<le> 2 ^ 63"
    using one Cons.prems(2) by simp
  note ih = Cons.IH[OF _ bound rest]
  have c: "card (dom (suffixes st1)) = Suc (card (dom (suffixes st)))"
    using one fin by simp
  show ?case using one ih c by auto
qed

lemma hd_min_reverse_complement:
  assumes "W \<noteq> []"
  shows "Node_id (hd (min W (reverse_complement W))) \<in> {Node_id (hd W), Node_id (last W)}"
    and "Node_id (last (min W (reverse_complement W))) \<in> {Node_id (hd W), Node_id (last W)}"
  using assms
  by (auto simp: min_def reverse_complement_def hd_rev last_rev last_map hd_map Node_id_reverse)

text \<open>
  Claim C5. A walk of length \<open>L \<ge> 2\<close> is inserted into empty tries and an empty set of
  crossing edges; as in the spec's data model, its two end handles are handles of nodes
  that exist already (ids below \<open>next_node\<close>), and the ids to allocate stay below \<open>2^63\<close>,
  the largest id a handle can pack. Then the prefix trie gets exactly
  \<open>(L + 1) div 2 - 1\<close> entries, one for each index from 1 up to \<open>(L + 1) div 2 - 1\<close> of the
  canonical walk, the suffix trie gets exactly \<open>L div 2 - 1\<close> entries, one for each index
  from \<open>(L + 1) div 2\<close> up to \<open>L - 2\<close>, and there is exactly one crossing edge: the walk is
  split at index \<open>(L + 1) div 2\<close>.
\<close>

theorem insert_path_midpoint_split:
  assumes "2 \<le> length W"
    and "prefixes st = Map.empty" and "suffixes st = Map.empty" and "crossing_edges st = {}"
    and "unat (Node_id (hd W)) < unat (next_node (node_mapping st))"
    and "unat (Node_id (last W)) < unat (next_node (node_mapping st))"
    and "unat (next_node (node_mapping st)) + length W \<le> 2 ^ 63"
  shows "card (dom (prefixes (insert_path W st))) = (length W + 1) div 2 - 1 \<and>
         snd ` dom (prefixes (insert_path W st)) =
           (!) (min W (reverse_complement W)) ` {1 ..< (length W + 1) div 2} \<and>
         card (dom (suffixes (insert_path W st))) = length W div 2 - 1 \<and>
         fst ` dom (suffixes (insert_path W st)) =
           (!) (min W (reverse_complement W)) ` {(length W + 1) div 2 ..< length W - 1} \<and>
         card (crossing_edges (insert_path W st)) = 1"
proof -
  let ?T = "min W (reverse_complement W)"
  let ?mid = "(length W + 1) div 2"
  have len: "length ?T = length W"
    by (simp add: min_def length_reverse_complement)
  have ne: "W \<noteq> []" using assms(1) by auto
  obtain f st1 where p: "fold (prefix_step ?T) [1 ..< ?mid] (hd ?T, st) = (f, st1)"
    by (cases "fold (prefix_step ?T) [1 ..< ?mid] (hd ?T, st)")
  obtain t st2 where s: "fold (suffix_step ?T) (rev [?mid ..< length W - 1]) (last ?T, st1) = (t, st2)"
    by (cases "fold (suffix_step ?T) (rev [?mid ..< length W - 1]) (last ?T, st1)")
  have ip: "insert_path W st = st2\<lparr>crossing_edges := insert (f, t) (crossing_edges st2)\<rparr>"
    using assms(1) p s by (simp add: insert_path_def Let_def len)
  have hdlt: "unat (Node_id (hd ?T)) < unat (next_node (node_mapping st))"
    using hd_min_reverse_complement(1)[OF ne] assms(5,6) by auto
  have lastlt: "unat (Node_id (last ?T)) < unat (next_node (node_mapping st))"
    using hd_min_reverse_complement(2)[OF ne] assms(5,6) by auto
  have pf: "prefix_fresh (hd ?T) st"
    using hdlt assms(2) by (simp add: prefix_fresh_def)
  have b1: "unat (next_node (node_mapping st)) + length [1 ..< ?mid] \<le> 2 ^ 63"
    using assms(7) by simp
  note P = fold_prefix_step_fresh[OF pf b1 p]
  have sf: "suffix_fresh (last ?T) st1"
    using lastlt P assms(3) by (simp add: suffix_fresh_def)
  have b2: "unat (next_node (node_mapping st1)) + length (rev [?mid ..< length W - 1]) \<le> 2 ^ 63"
    using assms(7) P by simp
  note S = fold_suffix_step_fresh[OF sf b2 s]
  have ar: "length W - 1 - ?mid = length W div 2 - 1" by presburger
  have c1: "card (dom (prefixes st2)) = ?mid - 1"
    using P S assms(2) by simp
  have c2: "snd ` dom (prefixes st2) = (!) ?T ` {1 ..< ?mid}"
    using P S assms(2) by simp
  have c3: "card (dom (suffixes st2)) = length W div 2 - 1"
    using P S assms(3) ar by simp
  have c4: "fst ` dom (suffixes st2) = (!) ?T ` {?mid ..< length W - 1}"
    using P S assms(3) by simp
  have c5: "crossing_edges st2 = {}"
    using P S assms(4) by simp
  show ?thesis
    unfolding ip using c1 c2 c3 c4 c5 by simp
qed

theorem insert_path_midpoint_split_witness:
  "2 \<le> length [2, 4, 6, 8, 10 :: node_type] \<and>
   prefixes (PhaseUnfolder_new 6) = Map.empty \<and>
   suffixes (PhaseUnfolder_new 6) = Map.empty \<and>
   crossing_edges (PhaseUnfolder_new 6) = {} \<and>
   unat (Node_id (hd [2, 4, 6, 8, 10])) < unat (next_node (node_mapping (PhaseUnfolder_new 6))) \<and>
   unat (Node_id (last [2, 4, 6, 8, 10])) < unat (next_node (node_mapping (PhaseUnfolder_new 6))) \<and>
   unat (next_node (node_mapping (PhaseUnfolder_new 6))) + length [2, 4, 6, 8, 10 :: node_type]
     \<le> 2 ^ 63 \<and>
   card (dom (prefixes (insert_path [2, 4, 6, 8, 10] (PhaseUnfolder_new 6)))) = 2 \<and>
   card (dom (suffixes (insert_path [2, 4, 6, 8, 10] (PhaseUnfolder_new 6)))) = 1 \<and>
   card (crossing_edges (insert_path [2, 4, 6, 8, 10] (PhaseUnfolder_new 6))) = 1"
  using insert_path_midpoint_split [of "[2, 4, 6, 8, 10]" "PhaseUnfolder_new 6"]
  by (simp add: PhaseUnfolder_new_def NodeMapping_new_def Node_id_def drop_bit_eq_div)

section \<open>The invariant of the trie entries\<close>

lemma NodeMapping_apply_insert_old:
  assumes "NodeMapping_apply m i = Some x"
  shows "NodeMapping_apply (m\<lparr>next_node := n, mapping := mapping m @ [y]\<rparr>) i = Some x"
  using assms by (auto simp: NodeMapping_apply_def nth_append split: if_splits)

lemma NodeMapping_apply_insert_new:
  assumes "mapping_wf m"
  shows "NodeMapping_apply (m\<lparr>next_node := n, mapping := mapping m @ [y]\<rparr>) (next_node m) = Some y"
proof -
  have le: "first_node m \<le> next_node m"
    using assms by (simp add: mapping_wf_def word_le_nat_alt)
  then have "unat (next_node m - first_node m) = length (mapping m)"
    using assms by (simp add: unat_sub mapping_wf_def)
  moreover have "\<not> next_node m < first_node m" using le by simp
  ultimately show ?thesis
    by (simp add: NodeMapping_apply_def)
qed

lemma mapping_wf_insert:
  assumes "mapping_wf m" and "unat (next_node m) < 2 ^ 63"
  shows "mapping_wf (m\<lparr>next_node := next_node m + 1, mapping := mapping m @ [y]\<rparr>)"
  using assms by (simp add: mapping_wf_def unat_word_ariths)

lemma trie_emplace_ok:
  assumes e: "trie_emplace trie m key node = (dup, trie', m')"
    and wf: "mapping_wf m" and lt: "unat (next_node m) < 2 ^ 63"
    and old: "\<forall>k v. trie k = Some v \<longrightarrow>
                NodeMapping_apply m (Node_id v) = Some (f k) \<and> Node_is_reverse v = g k"
    and key: "f key = Node_id node" "g key = Node_is_reverse node"
  shows "mapping_wf m' \<and>
         (\<forall>k v. trie' k = Some v \<longrightarrow>
            NodeMapping_apply m' (Node_id v) = Some (f k) \<and> Node_is_reverse v = g k) \<and>
         (\<forall>i x. NodeMapping_apply m i = Some x \<longrightarrow> NodeMapping_apply m' i = Some x) \<and>
         unat (next_node m') \<le> Suc (unat (next_node m))"
proof -
  note c = trie_emplace_cases[OF e]
  have nx: "unat (next_node m + 1) = Suc (unat (next_node m))"
    using lt by (simp add: unat_word_ariths)
  have 1: "mapping_wf m'" using c wf mapping_wf_insert[OF wf lt] by auto
  have 3: "\<forall>i x. NodeMapping_apply m i = Some x \<longrightarrow> NodeMapping_apply m' i = Some x"
    using c NodeMapping_apply_insert_old by auto
  have 4: "unat (next_node m') \<le> Suc (unat (next_node m))" using c nx by auto
  have 2: "NodeMapping_apply m' (Node_id v) = Some (f k) \<and> Node_is_reverse v = g k"
    if kv: "trie' k = Some v" for k v
  proof (cases "trie' = trie \<and> m' = m")
    case True
    then show ?thesis using old kv by blast
  next
    case False
    with c have d: "dup = Node_encode (next_node m) (Node_is_reverse node)"
      and t: "trie' = trie(key \<mapsto> dup)"
      and m': "m' = m\<lparr>next_node := next_node m + 1, mapping := mapping m @ [Node_id node]\<rparr>"
      by auto
    show ?thesis
    proof (cases "k = key")
      case True
      then have "v = dup" using kv t by simp
      then show ?thesis
        using True key lt NodeMapping_apply_insert_new[OF wf]
        by (simp add: d m' Node_id_encode Node_is_reverse_encode)
    next
      case False
      then have "trie k = Some v" using kv t by simp
      with old have "NodeMapping_apply m (Node_id v) = Some (f k) \<and> Node_is_reverse v = g k"
        by blast
      then show ?thesis using NodeMapping_apply_insert_old by (simp add: m')
    qed
  qed
  show ?thesis using 1 2 3 4 by blast
qed

lemma prefix_step_ok:
  assumes ok: "tries_ok st" and lt: "unat (next_node (node_mapping st)) < 2 ^ 63"
    and s: "prefix_step p i (from, st) = (from', st')"
  shows "tries_ok st' \<and>
         unat (next_node (node_mapping st')) \<le> Suc (unat (next_node (node_mapping st)))"
proof -
  obtain dup trie m where
    e: "trie_emplace (prefixes st) (node_mapping st) (from, p ! i) (p ! i) = (dup, trie, m)"
    using prod_cases3 by blast
  have st': "st' = st\<lparr>node_mapping := m, prefixes := trie\<rparr>"
    using s e by (auto simp: prefix_step_def)
  have wf: "mapping_wf (node_mapping st)" using ok by (simp add: tries_ok_def)
  have old: "\<forall>k v. prefixes st k = Some v \<longrightarrow>
      NodeMapping_apply (node_mapping st) (Node_id v) = Some (Node_id (snd k)) \<and>
      Node_is_reverse v = Node_is_reverse (snd k)"
    using ok by (auto simp: tries_ok_def)
  have r: "mapping_wf m \<and>
         (\<forall>k v. trie k = Some v \<longrightarrow>
            NodeMapping_apply m (Node_id v) = Some (Node_id (snd k)) \<and>
            Node_is_reverse v = Node_is_reverse (snd k)) \<and>
         (\<forall>i x. NodeMapping_apply (node_mapping st) i = Some x \<longrightarrow>
            NodeMapping_apply m i = Some x) \<and>
         unat (next_node m) \<le> Suc (unat (next_node (node_mapping st)))"
    by (rule trie_emplace_ok[OF e wf lt old]) simp_all
  have sfx: "NodeMapping_apply m (Node_id v) = Some (Node_id a) \<and>
        Node_is_reverse v = Node_is_reverse a" if "suffixes st (a, b) = Some v" for a b v
  proof -
    from ok that have "NodeMapping_apply (node_mapping st) (Node_id v) = Some (Node_id a) \<and>
        Node_is_reverse v = Node_is_reverse a"
      unfolding tries_ok_def by blast
    then show ?thesis using r by blast
  qed
  have pfx: "NodeMapping_apply m (Node_id v) = Some (Node_id b) \<and>
        Node_is_reverse v = Node_is_reverse b" if "trie (a, b) = Some v" for a b v
    using r that by fastforce
  have "tries_ok st'"
    unfolding tries_ok_def st' using r sfx pfx by simp
  then show ?thesis using r by (simp add: st')
qed

lemma suffix_step_ok:
  assumes ok: "tries_ok st" and lt: "unat (next_node (node_mapping st)) < 2 ^ 63"
    and s: "suffix_step p i (to, st) = (to', st')"
  shows "tries_ok st' \<and>
         unat (next_node (node_mapping st')) \<le> Suc (unat (next_node (node_mapping st)))"
proof -
  obtain dup trie m where
    e: "trie_emplace (suffixes st) (node_mapping st) (p ! i, to) (p ! i) = (dup, trie, m)"
    using prod_cases3 by blast
  have st': "st' = st\<lparr>node_mapping := m, suffixes := trie\<rparr>"
    using s e by (auto simp: suffix_step_def)
  have wf: "mapping_wf (node_mapping st)" using ok by (simp add: tries_ok_def)
  have old: "\<forall>k v. suffixes st k = Some v \<longrightarrow>
      NodeMapping_apply (node_mapping st) (Node_id v) = Some (Node_id (fst k)) \<and>
      Node_is_reverse v = Node_is_reverse (fst k)"
    using ok by (auto simp: tries_ok_def)
  have r: "mapping_wf m \<and>
         (\<forall>k v. trie k = Some v \<longrightarrow>
            NodeMapping_apply m (Node_id v) = Some (Node_id (fst k)) \<and>
            Node_is_reverse v = Node_is_reverse (fst k)) \<and>
         (\<forall>i x. NodeMapping_apply (node_mapping st) i = Some x \<longrightarrow>
            NodeMapping_apply m i = Some x) \<and>
         unat (next_node m) \<le> Suc (unat (next_node (node_mapping st)))"
    by (rule trie_emplace_ok[OF e wf lt old]) simp_all
  have pfx: "NodeMapping_apply m (Node_id v) = Some (Node_id b) \<and>
        Node_is_reverse v = Node_is_reverse b" if "prefixes st (a, b) = Some v" for a b v
  proof -
    from ok that have "NodeMapping_apply (node_mapping st) (Node_id v) = Some (Node_id b) \<and>
        Node_is_reverse v = Node_is_reverse b"
      unfolding tries_ok_def by blast
    then show ?thesis using r by blast
  qed
  have sfx: "NodeMapping_apply m (Node_id v) = Some (Node_id a) \<and>
        Node_is_reverse v = Node_is_reverse a" if "trie (a, b) = Some v" for a b v
    using r that by fastforce
  have "tries_ok st'"
    unfolding tries_ok_def st' using r sfx pfx by simp
  then show ?thesis using r by (simp add: st')
qed

lemma fold_prefix_step_ok:
  assumes "tries_ok st"
    and "unat (next_node (node_mapping st)) + length idx \<le> 2 ^ 63"
    and "fold (prefix_step p) idx (from, st) = (from', st')"
  shows "tries_ok st' \<and>
         unat (next_node (node_mapping st')) \<le> unat (next_node (node_mapping st)) + length idx"
  using assms
proof (induction idx arbitrary: "from" st)
  case Nil
  then show ?case by simp
next
  case (Cons i idx)
  obtain f1 st1 where s: "prefix_step p i (from, st) = (f1, st1)"
    by (cases "prefix_step p i (from, st)")
  have lt: "unat (next_node (node_mapping st)) < 2 ^ 63" using Cons.prems(2) by simp
  note one = prefix_step_ok[OF Cons.prems(1) lt s]
  have rest: "fold (prefix_step p) idx (f1, st1) = (from', st')"
    using Cons.prems(3) s by simp
  have bound: "unat (next_node (node_mapping st1)) + length idx \<le> 2 ^ 63"
    using one Cons.prems(2) by simp
  from Cons.IH[OF _ bound rest] one show ?case by simp
qed

lemma fold_suffix_step_ok:
  assumes "tries_ok st"
    and "unat (next_node (node_mapping st)) + length idx \<le> 2 ^ 63"
    and "fold (suffix_step p) idx (to, st) = (to', st')"
  shows "tries_ok st' \<and>
         unat (next_node (node_mapping st')) \<le> unat (next_node (node_mapping st)) + length idx"
  using assms
proof (induction idx arbitrary: to st)
  case Nil
  then show ?case by simp
next
  case (Cons i idx)
  obtain f1 st1 where s: "suffix_step p i (to, st) = (f1, st1)"
    by (cases "suffix_step p i (to, st)")
  have lt: "unat (next_node (node_mapping st)) < 2 ^ 63" using Cons.prems(2) by simp
  note one = suffix_step_ok[OF Cons.prems(1) lt s]
  have rest: "fold (suffix_step p) idx (f1, st1) = (to', st')"
    using Cons.prems(3) s by simp
  have bound: "unat (next_node (node_mapping st1)) + length idx \<le> 2 ^ 63"
    using one Cons.prems(2) by simp
  from Cons.IH[OF _ bound rest] one show ?case by simp
qed

lemma insert_path_ok:
  assumes ok: "tries_ok st"
    and b: "unat (next_node (node_mapping st)) + length W \<le> 2 ^ 63"
  shows "tries_ok (insert_path W st) \<and>
         unat (next_node (node_mapping (insert_path W st)))
           \<le> unat (next_node (node_mapping st)) + length W"
proof (cases "length W < 2")
  case True
  then show ?thesis using ok by (simp add: insert_path_def)
next
  case False
  let ?T = "min W (reverse_complement W)"
  let ?mid = "(length W + 1) div 2"
  have len: "length ?T = length W"
    by (simp add: min_def length_reverse_complement)
  obtain f st1 where p: "fold (prefix_step ?T) [1 ..< ?mid] (hd ?T, st) = (f, st1)"
    by (cases "fold (prefix_step ?T) [1 ..< ?mid] (hd ?T, st)")
  obtain t st2 where s: "fold (suffix_step ?T) (rev [?mid ..< length W - 1]) (last ?T, st1) = (t, st2)"
    by (cases "fold (suffix_step ?T) (rev [?mid ..< length W - 1]) (last ?T, st1)")
  have ip: "insert_path W st = st2\<lparr>crossing_edges := insert (f, t) (crossing_edges st2)\<rparr>"
    using False p s by (simp add: insert_path_def Let_def len)
  have b1: "unat (next_node (node_mapping st)) + length [1 ..< ?mid] \<le> 2 ^ 63"
    using b by simp
  note P = fold_prefix_step_ok[OF ok b1 p]
  have l1: "length [1 ..< ?mid] = ?mid - 1" by simp
  have l2: "length (rev [?mid ..< length W - 1]) = length W - 1 - ?mid" by simp
  have k: "?mid - 1 + (length W - 1 - ?mid) \<le> length W" by arith
  have n1: "unat (next_node (node_mapping st1)) \<le> unat (next_node (node_mapping st)) + (?mid - 1)"
    using P unfolding l1 by blast
  have b2: "unat (next_node (node_mapping st1)) + length (rev [?mid ..< length W - 1]) \<le> 2 ^ 63"
    unfolding l2 using b n1 k by linarith
  note S = fold_suffix_step_ok[OF conjunct1[OF P] b2 s]
  have n2': "unat (next_node (node_mapping st2)) \<le> unat (next_node (node_mapping st1)) + (length W - 1 - ?mid)"
    using S unfolding l2 by blast
  have n2: "unat (next_node (node_mapping st2)) \<le> unat (next_node (node_mapping st)) + length W"
    using n1 n2' k by linarith
  have "tries_ok (st2\<lparr>crossing_edges := insert (f, t) (crossing_edges st2)\<rparr>)"
    using S by (simp add: tries_ok_def)
  then show ?thesis using n2 by (simp add: ip)
qed

lemma fold_insert_path_ok:
  assumes "tries_ok st"
    and "unat (next_node (node_mapping st)) + sum_list (map length walks) \<le> 2 ^ 63"
  shows "tries_ok (fold insert_path walks st)"
  using assms
proof (induction walks arbitrary: st)
  case Nil
  then show ?case by simp
next
  case (Cons W walks)
  have b: "unat (next_node (node_mapping st)) + length W \<le> 2 ^ 63"
    using Cons.prems(2) by simp
  note one = insert_path_ok[OF Cons.prems(1) b]
  have "unat (next_node (node_mapping (insert_path W st))) + sum_list (map length walks) \<le> 2 ^ 63"
    using one Cons.prems(2) by simp
  from Cons.IH[OF conjunct1[OF one] this] show ?case by simp
qed

text \<open>
  Claim C7. Start from a state whose mapping is well formed and whose tries are empty
  (the unfolder as constructed, or as \<^verbatim>\<open>unfold_component\<close> leaves it), and call
  \<^verbatim>\<open>insert_path\<close> on any sequence of walks, as long as the ids to allocate stay below
  \<open>2^63\<close>, the largest id a handle can pack. Then every entry \<open>P[(u, v_orig)] = v_dup\<close> of
  the prefix trie, and every entry \<open>S[(v_orig, u)] = v_dup\<close> of the suffix trie, has
  \<open>M(id(v_dup)) = id(v_orig)\<close> and the orientation of \<open>v_dup\<close> is that of \<open>v_orig\<close>.
\<close>

theorem trie_entry_mapping_invariant:
  assumes "mapping_wf (node_mapping st0)"
    and "prefixes st0 = Map.empty" and "suffixes st0 = Map.empty"
    and "unat (next_node (node_mapping st0)) + sum_list (map length walks) \<le> 2 ^ 63"
  shows "(prefixes (fold insert_path walks st0) (u, v_orig) = Some v_dup \<longrightarrow>
            NodeMapping_apply (node_mapping (fold insert_path walks st0)) (Node_id v_dup)
              = Some (Node_id v_orig) \<and>
            Node_is_reverse v_dup = Node_is_reverse v_orig) \<and>
         (suffixes (fold insert_path walks st0) (v_orig, u) = Some v_dup \<longrightarrow>
            NodeMapping_apply (node_mapping (fold insert_path walks st0)) (Node_id v_dup)
              = Some (Node_id v_orig) \<and>
            Node_is_reverse v_dup = Node_is_reverse v_orig)"
proof -
  have "tries_ok st0" using assms(1,2,3) by (simp add: tries_ok_def)
  from fold_insert_path_ok[OF this assms(4)] show ?thesis
    unfolding tries_ok_def by blast
qed

lemma two_walks_inserted:
  "fold insert_path [[2, 4, 6], [2, 8, 6]] (PhaseUnfolder_new 5) =
     \<lparr>node_mapping = \<lparr>first_node = 5, next_node = 7, mapping = [2, 4]\<rparr>, border = {},
      prefixes = [(2, 4) \<mapsto> 10, (2, 8) \<mapsto> 12], suffixes = Map.empty,
      crossing_edges = {(12, 6), (10, 6)}\<rparr>"
  by (simp add: insert_path_def reverse_complement_def Node_reverse_def min_def list_le_def
      PhaseUnfolder_new_def NodeMapping_new_def prefix_step_def suffix_step_def trie_emplace_def
      NodeMapping_insert_def Node_id_def Node_encode_def Node_is_reverse_def Let_def
      drop_bit_eq_div)

theorem trie_entry_mapping_invariant_witness:
  "mapping_wf (node_mapping (PhaseUnfolder_new 5)) \<and>
   prefixes (PhaseUnfolder_new 5) = Map.empty \<and>
   suffixes (PhaseUnfolder_new 5) = Map.empty \<and>
   unat (next_node (node_mapping (PhaseUnfolder_new 5)))
     + sum_list (map length [[2, 4, 6], [2, 8, 6 :: node_type]]) \<le> 2 ^ 63 \<and>
   prefixes (fold insert_path [[2, 4, 6], [2, 8, 6]] (PhaseUnfolder_new 5)) (2, 8) = Some 12 \<and>
   NodeMapping_apply (node_mapping (fold insert_path [[2, 4, 6], [2, 8, 6]] (PhaseUnfolder_new 5)))
     (Node_id 12) = Some (Node_id 8) \<and>
   Node_is_reverse 12 = Node_is_reverse 8"
proof -
  have wf: "mapping_wf (node_mapping (PhaseUnfolder_new 5))"
    by (simp add: mapping_wf_def PhaseUnfolder_new_def NodeMapping_new_def)
  have p: "prefixes (PhaseUnfolder_new 5) = Map.empty"
    and s: "suffixes (PhaseUnfolder_new 5) = Map.empty"
    by (simp_all add: PhaseUnfolder_new_def)
  have b: "unat (next_node (node_mapping (PhaseUnfolder_new 5)))
     + sum_list (map length [[2, 4, 6], [2, 8, 6 :: node_type]]) \<le> 2 ^ 63"
    by (simp add: PhaseUnfolder_new_def NodeMapping_new_def)
  have e: "prefixes (fold insert_path [[2, 4, 6], [2, 8, 6]] (PhaseUnfolder_new 5)) (2, 8) = Some 12"
    unfolding two_walks_inserted by simp
  from trie_entry_mapping_invariant [OF wf p s b, of 2 8 12] e
  have "NodeMapping_apply
          (node_mapping (fold insert_path [[2, 4, 6], [2, 8, 6]] (PhaseUnfolder_new 5)))
          (Node_id 12) = Some (Node_id 8) \<and>
        Node_is_reverse 12 = Node_is_reverse 8"
    by blast
  with wf p s b e show ?thesis by blast
qed

section \<open>The verifier\<close>

lemma count_failures_skips_success:
  "count_failures (before @ Some (Inr True) # after) = count_failures (before @ after)"
proof -
  have a: "[e. Some (Inl e) \<leftarrow> before @ Some (Inr True) # after]
             = [e. Some (Inl e) \<leftarrow> before @ after]"
    by simp
  have b: "filter (\<lambda>r. r = Some (Inr False)) (before @ Some (Inr True) # after)
             = filter (\<lambda>r. r = Some (Inr False)) (before @ after)"
    by simp
  have c: "None \<in> set (before @ Some (Inr True) # after) \<longleftrightarrow> None \<in> set (before @ after)"
    by simp
  show ?thesis unfolding count_failures_def a b c ..
qed

text \<open>
  Claim C10. For a path of length 0 or 1, \<^verbatim>\<open>verify_path\<close> returns true whatever the
  unfolded graph (the empty graph included) and the reverse mapping are, and the result
  of such a path adds nothing to the number of failures that \<^verbatim>\<open>verify_paths\<close> counts over
  the results of all paths.
\<close>

theorem verify_path_short:
  "length path < 2 \<Longrightarrow>
     verify_path path unfolded reverse_mapping = Some (Inr True) \<and>
     count_failures (before @ [verify_path path unfolded reverse_mapping] @ after)
       = count_failures (before @ after)"
  by (simp add: verify_path_def count_failures_skips_success)

theorem verify_path_short_witness:
  "length [(1 :: id_t, False)] < 2 \<and>
   verify_path [(1, False)] VG_empty Map.empty = Some (Inr True) \<and>
   count_failures ([Some (Inr False)] @ [verify_path [(1, False)] VG_empty Map.empty] @ [])
     = count_failures ([Some (Inr False)] @ [])"
proof -
  have short: "length [(1 :: id_t, False)] < 2" by simp
  from verify_path_short [OF short, of VG_empty Map.empty "[Some (Inr False)]" "[]"] short
  show ?thesis by blast
qed

text \<open>
  Claim C2, at a failing input. The walk is \<open>1+ 2+ 3+\<close>; node 2 has the candidates 4 and
  5, node 3 the candidates 6 and 7, node 1 only itself; the graph has the two edges
  \<open>1+ \<rightarrow> 4+\<close> and \<open>5+ \<rightarrow> 6+\<close>. No choice of candidates makes both steps of the walk edges
  of the graph, and \<^verbatim>\<open>verify_path\<close> returns true all the same: when the candidate 4 at
  offset 1 has failed, the search goes on at offset 1 with the candidate 5, and never
  checks the edge from offset 0 to it.
\<close>

theorem verify_path_accepts_unrealized_walk:
  "verify_path [(1, False), (2, False), (3, False)]
     \<lparr>nodes = [1 \<mapsto> ''A'', 4 \<mapsto> ''C'', 5 \<mapsto> ''C'', 6 \<mapsto> ''G'', 7 \<mapsto> ''G''],
      edges = {(2, 8), (10, 12)}\<rparr>
     [2 \<mapsto> [4, 5], 3 \<mapsto> [6, 7]] = Some (Inr True) \<and>
   \<not> realized [(1, False), (2, False), (3, False)]
     \<lparr>nodes = [1 \<mapsto> ''A'', 4 \<mapsto> ''C'', 5 \<mapsto> ''C'', 6 \<mapsto> ''G'', 7 \<mapsto> ''G''],
      edges = {(2, 8), (10, 12)}\<rparr>
     [2 \<mapsto> [4, 5], 3 \<mapsto> [6, 7]]"
  by (simp add: verify_path_def verify_branches.simps explore_branch_def extend_branch.simps
      VG_has_edge_def Node_encode_def Node_reverse_def advance_def realized_def candidates_def)

section \<open>Failing to open the mapping file\<close>

text \<open>
  Claim C9. When the mapping file cannot be opened for reading, \<^verbatim>\<open>read_mapping\<close> returns
  normally with the unfolder unchanged, its node mapping included, and has written one
  message to the standard error stream; when the file cannot be created,
  \<^verbatim>\<open>write_mapping\<close> returns with one message written and no file changed.
\<close>

theorem mapping_file_not_opened:
  "(files fs filename = None \<longrightarrow>
      snd (read_mapping fs filename st) = Inr st \<and>
      files (fst (read_mapping fs filename st)) = files fs \<and>
      standard_error (fst (read_mapping fs filename st)) =
        standard_error fs @ [''[PhaseUnfolder]: cannot open mapping file '' @ filename]) \<and>
   (\<not> creatable fs filename \<longrightarrow>
      files (write_mapping fs filename st) = files fs \<and>
      standard_error (write_mapping fs filename st) =
        standard_error fs @ [''[PhaseUnfolder]: cannot create mapping file '' @ filename])"
  by (simp add: read_mapping_def write_mapping_def)

theorem mapping_file_not_opened_witness:
  "files \<lparr>files = Map.empty, creatable = (\<lambda>_. False), standard_error = []\<rparr> ''node.mapping''
     = None \<and>
   snd (read_mapping \<lparr>files = Map.empty, creatable = (\<lambda>_. False), standard_error = []\<rparr>
          ''node.mapping'' (PhaseUnfolder_new 5)) = Inr (PhaseUnfolder_new 5) \<and>
   standard_error
     (fst (read_mapping \<lparr>files = Map.empty, creatable = (\<lambda>_. False), standard_error = []\<rparr>
             ''node.mapping'' (PhaseUnfolder_new 5)))
     = [''[PhaseUnfolder]: cannot open mapping file node.mapping''] \<and>
   \<not> creatable \<lparr>files = Map.empty, creatable = (\<lambda>_. False), standard_error = []\<rparr>
        ''node.mapping'' \<and>
   standard_error
     (write_mapping \<lparr>files = Map.empty, creatable = (\<lambda>_. False), standard_error = []\<rparr>
        ''node.mapping'' (PhaseUnfolder_new 5))
     = [''[PhaseUnfolder]: cannot create mapping file node.mapping'']"
  using mapping_file_not_opened
    [of "\<lparr>files = Map.empty, creatable = (\<lambda>_. False), standard_error = []\<rparr>"
        "''node.mapping''" "PhaseUnfolder_new 5"]
  by simp

section \<open>Unfolding concrete graphs\<close>

lemma border_nodes:
  "{i \<in> dom (nodes c). VG_has_node g i} = dom (nodes c) \<inter> dom (nodes g)"
  by (auto simp: VG_has_node_def)

lemma unfold_component_border:
  "unfold_component ix component graph unfolded st =
     (let st = st\<lparr>border := border st \<union> (dom (nodes component) \<inter> dom (nodes graph))\<rparr> in
      case unfold_starts ix component (elements ix (border st)) st of
        None \<Rightarrow> None
      | Some st \<Rightarrow>
          Some (case assemble (xg_index ix) st unfolded of
                  Inl e \<Rightarrow> Inl e
                | Inr unfolded \<Rightarrow>
                    Inr (card (crossing_edges st), unfolded,
                         st\<lparr>border := {}, prefixes := Map.empty, suffixes := Map.empty,
                            crossing_edges := {}\<rparr>)))"
  by (simp add: unfold_component_def border_nodes)

lemmas handle_defs =
  Node_encode_def Node_id_def Node_reverse_def Node_is_reverse_def drop_bit_eq_div
  word_le_nat_alt word_less_nat_alt

lemmas insert_defs =
  insert_path_def reverse_complement_def min_def list_le_def prefix_step_def suffix_step_def
  trie_emplace_def NodeMapping_insert_def

lemmas graph_defs =
  VG_has_edge_def VG_add_node_def VG_add_edge_def VG_has_node_def VG_empty_def VG_extend_def
  xg_node_def path_handle_def max_path_rank_def get_path_def node_ranks_in_path_def
  add_missing_edge_def upt_conv_Cons Let_def

lemmas unfold_defs =
  unfold_def complement_components_def complement_graph_def complement_path_def empty_gbwt_def
  unfold_component_border generate_paths_def generate_occurrence_def forward_walk.simps
  generate_threads_def create_state_def thread_loop.simps assemble_def trie_edges_def
  PhaseUnfolder_new_def NodeMapping_new_def NodeMapping_apply_def

lemma scenario_complement:
  "complement_graph scenario_indexes scenario_graph = scenario_missing"
  apply (simp add: scenario_indexes_def scenario_graph_def scenario_missing_def handle_defs
      graph_defs unfold_defs)
  apply (auto simp: fun_eq_iff)
  done

lemma pruned_complement:
  "complement_graph scenario_indexes pruned_graph = scenario_missing"
  apply (simp add: scenario_indexes_def pruned_graph_def scenario_missing_def handle_defs
      graph_defs unfold_defs)
  apply (auto simp: fun_eq_iff)
  done

lemma scenario_component:
  "unfold_component scenario_indexes scenario_missing scenario_graph VG_empty
     (PhaseUnfolder_new 5) =
   Some (Inr (4,
     \<lparr>nodes = [1 \<mapsto> ''A'', 2 \<mapsto> ''A'', 3 \<mapsto> ''A'', 4 \<mapsto> ''A''],
      edges = {(2, 4), (4, 6), (2, 8), (7, 9)}\<rparr>,
     PhaseUnfolder_new 5))"
  apply (simp add: scenario_indexes_def scenario_graph_def scenario_missing_def handle_defs
      graph_defs unfold_defs insert_defs)
  apply (auto simp: fun_eq_iff NodeMapping_apply_def word_less_nat_alt card_insert_if)
  done

lemma scenario_unfolded:
  "unfold scenario_indexes scenario_graph (PhaseUnfolder_new 5) =
     Some (Inr (\<lparr>nodes = [1 \<mapsto> ''A'', 2 \<mapsto> ''A'', 3 \<mapsto> ''A'', 4 \<mapsto> ''A''],
                  edges = {(2, 4), (4, 6), (2, 8), (7, 9)}\<rparr>,
                PhaseUnfolder_new 5))"
  apply (simp add: unfold_def complement_components_def scenario_complement)
  apply (simp add: scenario_indexes_def)
  apply (simp add: scenario_component [unfolded scenario_indexes_def])
  apply (auto simp: VG_extend_def scenario_graph_def fun_eq_iff map_add_def)
  done

lemma pruned_component:
  "unfold_component scenario_indexes scenario_missing pruned_graph VG_empty
     (PhaseUnfolder_new 5) =
   Some (Inr (2,
     \<lparr>nodes = [1 \<mapsto> ''A'', 3 \<mapsto> ''A'', 5 \<mapsto> ''A'', 6 \<mapsto> ''A''],
      edges = {(2, 10), (10, 6), (2, 12), (12, 6)}\<rparr>,
     (PhaseUnfolder_new 5)
       \<lparr>node_mapping := \<lparr>first_node = 5, next_node = 7, mapping = [2, 4]\<rparr>\<rparr>))"
  apply (simp add: scenario_indexes_def pruned_graph_def scenario_missing_def handle_defs
      graph_defs unfold_defs insert_defs)
  apply (auto simp: fun_eq_iff NodeMapping_apply_def word_less_nat_alt card_insert_if)
  done

lemma pruned_unfolded:
  "unfold scenario_indexes pruned_graph (PhaseUnfolder_new 5) =
     Some (Inr (\<lparr>nodes = [1 \<mapsto> ''A'', 3 \<mapsto> ''A'', 5 \<mapsto> ''A'', 6 \<mapsto> ''A''],
                  edges = {(2, 10), (10, 6), (2, 12), (12, 6)}\<rparr>,
                (PhaseUnfolder_new 5)
                  \<lparr>node_mapping := \<lparr>first_node = 5, next_node = 7, mapping = [2, 4]\<rparr>\<rparr>))"
  apply (simp add: unfold_def complement_components_def pruned_complement)
  apply (simp add: scenario_indexes_def)
  apply (simp add: pruned_component [unfolded scenario_indexes_def])
  apply (auto simp: VG_extend_def pruned_graph_def fun_eq_iff map_add_def)
  done

text \<open>
  Claim C4 as stated fails. With the graph of the scenario, which holds all of the nodes
  1 to 4, every node of the component is a border node: the component yields four walks
  (the number of crossing edges that \<^verbatim>\<open>unfold_component\<close> returns), and the unfolder ends
  in the state it started from, with \<open>next_node\<close> still 5 and no duplicate allocated.
\<close>

theorem scenario_b_allocates_no_duplicate:
  "unfold_component scenario_indexes scenario_missing scenario_graph VG_empty
     (PhaseUnfolder_new 5) =
     Some (Inr (4,
       \<lparr>nodes = [1 \<mapsto> ''A'', 2 \<mapsto> ''A'', 3 \<mapsto> ''A'', 4 \<mapsto> ''A''],
        edges = {(2, 4), (4, 6), (2, 8), (7, 9)}\<rparr>,
       PhaseUnfolder_new 5)) \<and>
   unfold scenario_indexes scenario_graph (PhaseUnfolder_new 5) =
     Some (Inr (\<lparr>nodes = [1 \<mapsto> ''A'', 2 \<mapsto> ''A'', 3 \<mapsto> ''A'', 4 \<mapsto> ''A''],
                  edges = {(2, 4), (4, 6), (2, 8), (7, 9)}\<rparr>,
                PhaseUnfolder_new 5)) \<and>
   next_node (node_mapping (PhaseUnfolder_new 5)) = 5"
  by (simp add: scenario_component scenario_unfolded)
     (simp add: PhaseUnfolder_new_def NodeMapping_new_def)

text \<open>
  Claim C4, amended. The reference paths are \<open>1+ 2+ 3+\<close> and \<open>1+ 4+ 3+\<close>, there are no
  haplotype threads, the graph has no edges and \<open>next_node\<close> is 5. When the graph holds
  only the nodes 1 and 3, \<^verbatim>\<open>unfold\<close> enumerates two walks, allocates the duplicates 5 of
  node 2 and 6 of node 4, so that \<open>next_node\<close> grows by exactly 2, and its two crossing
  edges \<open>5+ \<rightarrow> 3+\<close> and \<open>6+ \<rightarrow> 3+\<close> join each prefix to the end of its walk. When the graph
  holds the nodes 1 to 4, as the scenario says, \<^verbatim>\<open>unfold\<close> enumerates four walks of length
  2, adds their four edges and allocates nothing.
\<close>

theorem scenario_b_unfolded:
  "unfold_component scenario_indexes scenario_missing pruned_graph VG_empty
     (PhaseUnfolder_new 5) =
     Some (Inr (2,
       \<lparr>nodes = [1 \<mapsto> ''A'', 3 \<mapsto> ''A'', 5 \<mapsto> ''A'', 6 \<mapsto> ''A''],
        edges = {(2, 10), (10, 6), (2, 12), (12, 6)}\<rparr>,
       (PhaseUnfolder_new 5)
         \<lparr>node_mapping := \<lparr>first_node = 5, next_node = 7, mapping = [2, 4]\<rparr>\<rparr>)) \<and>
   unfold scenario_indexes pruned_graph (PhaseUnfolder_new 5) =
     Some (Inr (\<lparr>nodes = [1 \<mapsto> ''A'', 3 \<mapsto> ''A'', 5 \<mapsto> ''A'', 6 \<mapsto> ''A''],
                  edges = {(2, 10), (10, 6), (2, 12), (12, 6)}\<rparr>,
                (PhaseUnfolder_new 5)
                  \<lparr>node_mapping := \<lparr>first_node = 5, next_node = 7, mapping = [2, 4]\<rparr>\<rparr>)) \<and>
   unfold_component scenario_indexes scenario_missing scenario_graph VG_empty
     (PhaseUnfolder_new 5) =
     Some (Inr (4,
       \<lparr>nodes = [1 \<mapsto> ''A'', 2 \<mapsto> ''A'', 3 \<mapsto> ''A'', 4 \<mapsto> ''A''],
        edges = {(2, 4), (4, 6), (2, 8), (7, 9)}\<rparr>,
       PhaseUnfolder_new 5)) \<and>
   unfold scenario_indexes scenario_graph (PhaseUnfolder_new 5) =
     Some (Inr (\<lparr>nodes = [1 \<mapsto> ''A'', 2 \<mapsto> ''A'', 3 \<mapsto> ''A'', 4 \<mapsto> ''A''],
                  edges = {(2, 4), (4, 6), (2, 8), (7, 9)}\<rparr>,
                PhaseUnfolder_new 5))"
  by (simp add: scenario_component scenario_unfolded pruned_component pruned_unfolded)

section \<open>A reference path inside the pruned region\<close>

lemma inner_path_unfolded:
  "unfold inner_path_indexes pruned_graph (PhaseUnfolder_new 5) =
     Some (Inr (\<lparr>nodes = [1 \<mapsto> ''A'', 3 \<mapsto> ''A'', 5 \<mapsto> ''A''], edges = {(2, 10), (10, 6)}\<rparr>,
                (PhaseUnfolder_new 5)
                  \<lparr>node_mapping := \<lparr>first_node = 5, next_node = 6, mapping = [2]\<rparr>\<rparr>))"
  apply (simp add: inner_path_indexes_def pruned_graph_def handle_defs graph_defs unfold_defs
      insert_defs)
  apply (auto simp: fun_eq_iff NodeMapping_apply_def word_less_nat_alt)
  done

lemma inner_path_verified:
  "verify_paths inner_path_indexes
     \<lparr>nodes = [1 \<mapsto> ''A'', 3 \<mapsto> ''A'', 5 \<mapsto> ''A''], edges = {(2, 10), (10, 6)}\<rparr>
     ((PhaseUnfolder_new 5)\<lparr>node_mapping := \<lparr>first_node = 5, next_node = 6, mapping = [2]\<rparr>\<rparr>)
   = Some (Inr 1)"
  by (simp add: verify_paths_def build_reverse_mapping_def add_duplicate_def removeDuplicates_def
      indexed_paths_def count_failures_def inner_path_indexes_def handle_defs graph_defs
      unfold_defs verify_path_def verify_branches.simps explore_branch_def extend_branch.simps
      advance_def)

lemma inner_path_restored:
  "restore_paths (xg_index inner_path_indexes) pruned_graph =
     \<lparr>nodes = [1 \<mapsto> ''A'', 2 \<mapsto> ''A'', 3 \<mapsto> ''A'', 4 \<mapsto> ''A''],
      edges = {(2, 4), (4, 6), (4, 8)}\<rparr>"
  apply (simp add: inner_path_indexes_def pruned_graph_def handle_defs graph_defs
      restore_paths_def restore_path_def)
  apply (auto simp: fun_eq_iff)
  done

text \<open>
  Claim C1, at a failing input. The graph holds the nodes 1 and 3 and no edge; the
  reference paths are \<open>1+ 2+ 3+\<close> and \<open>2+ 4+\<close>; there are no haplotype threads. The border
  nodes are 1 and 3, and no walk that starts at them runs over the second path:
  \<^verbatim>\<open>unfold\<close> adds the duplicate 5 of node 2 with the edges \<open>1+ \<rightarrow> 5+\<close> and \<open>5+ \<rightarrow> 3+\<close>, and
  \<^verbatim>\<open>verify_paths\<close> on the graph it returns counts one failure, the path \<open>2+ 4+\<close>.
\<close>

theorem unfold_loses_inner_path:
  "unfold inner_path_indexes pruned_graph (PhaseUnfolder_new 5) =
     Some (Inr (\<lparr>nodes = [1 \<mapsto> ''A'', 3 \<mapsto> ''A'', 5 \<mapsto> ''A''], edges = {(2, 10), (10, 6)}\<rparr>,
                (PhaseUnfolder_new 5)
                  \<lparr>node_mapping := \<lparr>first_node = 5, next_node = 6, mapping = [2]\<rparr>\<rparr>)) \<and>
   verify_paths inner_path_indexes
     \<lparr>nodes = [1 \<mapsto> ''A'', 3 \<mapsto> ''A'', 5 \<mapsto> ''A''], edges = {(2, 10), (10, 6)}\<rparr>
     ((PhaseUnfolder_new 5)\<lparr>node_mapping := \<lparr>first_node = 5, next_node = 6, mapping = [2]\<rparr>\<rparr>)
     = Some (Inr 1)"
  using inner_path_unfolded inner_path_verified by blast

text \<open>
  Claim C3, at the same input. \<^verbatim>\<open>restore_paths\<close> adds the nodes 2 and 4 and the three
  edges of the two paths; the graph that \<^verbatim>\<open>unfold\<close> returns has, with the duplicate 5
  renamed back to 2, the edges of the first path only, and neither node 4 nor the edge
  \<open>2+ \<rightarrow> 4+\<close>.
\<close>

theorem restore_paths_differs_from_unfold:
  "unfold inner_path_indexes pruned_graph (PhaseUnfolder_new 5) =
     Some (Inr (\<lparr>nodes = [1 \<mapsto> ''A'', 3 \<mapsto> ''A'', 5 \<mapsto> ''A''], edges = {(2, 10), (10, 6)}\<rparr>,
                (PhaseUnfolder_new 5)
                  \<lparr>node_mapping := \<lparr>first_node = 5, next_node = 6, mapping = [2]\<rparr>\<rparr>)) \<and>
   NodeMapping_apply \<lparr>first_node = 5, next_node = 6, mapping = [2]\<rparr> 5 = Some 2 \<and>
   restore_paths (xg_index inner_path_indexes) pruned_graph =
     \<lparr>nodes = [1 \<mapsto> ''A'', 2 \<mapsto> ''A'', 3 \<mapsto> ''A'', 4 \<mapsto> ''A''],
      edges = {(2, 4), (4, 6), (4, 8)}\<rparr>"
  using inner_path_unfolded inner_path_restored
  by (simp add: NodeMapping_apply_def word_less_nat_alt)

section \<open>Border fidelity\<close>

lemma trie_emplace_dom:
  assumes "trie_emplace trie m key node = (dup, trie', m')"
  shows "dom trie' = insert key (dom trie)"
  using trie_emplace_cases[OF assms] by auto

lemma prefix_step_grows:
  assumes "prefix_step p i (from, st) = (from', st')"
  shows "dom (prefixes st') = insert (from, p ! i) (dom (prefixes st)) \<and>
         suffixes st' = suffixes st \<and> crossing_edges st' = crossing_edges st \<and>
         border st' = border st"
proof -
  obtain dup trie m where
    e: "trie_emplace (prefixes st) (node_mapping st) (from, p ! i) (p ! i) = (dup, trie, m)"
    using prod_cases3 by blast
  have "st' = st\<lparr>node_mapping := m, prefixes := trie\<rparr>"
    using assms e by (auto simp: prefix_step_def)
  then show ?thesis using trie_emplace_dom[OF e] by simp
qed

lemma suffix_step_grows:
  assumes "suffix_step p i (to, st) = (to', st')"
  shows "dom (suffixes st') = insert (p ! i, to) (dom (suffixes st)) \<and>
         prefixes st' = prefixes st \<and> crossing_edges st' = crossing_edges st \<and>
         border st' = border st"
proof -
  obtain dup trie m where
    e: "trie_emplace (suffixes st) (node_mapping st) (p ! i, to) (p ! i) = (dup, trie, m)"
    using prod_cases3 by blast
  have "st' = st\<lparr>node_mapping := m, suffixes := trie\<rparr>"
    using assms e by (auto simp: suffix_step_def)
  then show ?thesis using trie_emplace_dom[OF e] by simp
qed

lemma fold_prefix_step_grows:
  assumes "fold (prefix_step p) idx (from, st) = (from', st')"
  shows "dom (prefixes st) \<subseteq> dom (prefixes st') \<and>
         (idx = [] \<longrightarrow> from' = from) \<and>
         (idx \<noteq> [] \<longrightarrow> from \<in> fst ` dom (prefixes st')) \<and>
         suffixes st' = suffixes st \<and> crossing_edges st' = crossing_edges st \<and>
         border st' = border st"
  using assms
proof (induction idx arbitrary: "from" st)
  case Nil
  then show ?case by simp
next
  case (Cons i idx)
  obtain f1 st1 where s: "prefix_step p i (from, st) = (f1, st1)"
    by (cases "prefix_step p i (from, st)")
  note one = prefix_step_grows[OF s]
  have rest: "fold (prefix_step p) idx (f1, st1) = (from', st')"
    using Cons.prems s by simp
  note ih = Cons.IH[OF rest]
  have "(from, p ! i) \<in> dom (prefixes st')" using one ih by blast
  then have "from \<in> fst ` dom (prefixes st')" by force
  then show ?case using one ih by auto
qed

lemma fold_suffix_step_grows:
  assumes "fold (suffix_step p) idx (to, st) = (to', st')"
  shows "dom (suffixes st) \<subseteq> dom (suffixes st') \<and>
         (idx = [] \<longrightarrow> to' = to) \<and>
         (idx \<noteq> [] \<longrightarrow> to \<in> snd ` dom (suffixes st')) \<and>
         prefixes st' = prefixes st \<and> crossing_edges st' = crossing_edges st \<and>
         border st' = border st"
  using assms
proof (induction idx arbitrary: to st)
  case Nil
  then show ?case by simp
next
  case (Cons i idx)
  obtain f1 st1 where s: "suffix_step p i (to, st) = (f1, st1)"
    by (cases "suffix_step p i (to, st)")
  note one = suffix_step_grows[OF s]
  have rest: "fold (suffix_step p) idx (f1, st1) = (to', st')"
    using Cons.prems s by simp
  note ih = Cons.IH[OF rest]
  have "(p ! i, to) \<in> dom (suffixes st')" using one ih by blast
  then have "to \<in> snd ` dom (suffixes st')" by force
  then show ?case using one ih by auto
qed

lemma insert_path_anchors:
  "anchors st \<subseteq> anchors (insert_path W st) \<and> border (insert_path W st) = border st \<and>
   (2 \<le> length W \<longrightarrow>
      hd (min W (reverse_complement W)) \<in> anchors (insert_path W st) \<and>
      last (min W (reverse_complement W)) \<in> anchors (insert_path W st))"
proof (cases "length W < 2")
  case True
  then show ?thesis by (simp add: insert_path_def)
next
  case False
  let ?T = "min W (reverse_complement W)"
  let ?mid = "(length W + 1) div 2"
  have len: "length ?T = length W"
    by (simp add: min_def length_reverse_complement)
  obtain f st1 where p: "fold (prefix_step ?T) [1 ..< ?mid] (hd ?T, st) = (f, st1)"
    by (cases "fold (prefix_step ?T) [1 ..< ?mid] (hd ?T, st)")
  obtain t st2 where s: "fold (suffix_step ?T) (rev [?mid ..< length W - 1]) (last ?T, st1) = (t, st2)"
    by (cases "fold (suffix_step ?T) (rev [?mid ..< length W - 1]) (last ?T, st1)")
  have ip: "insert_path W st = st2\<lparr>crossing_edges := insert (f, t) (crossing_edges st2)\<rparr>"
    using False p s by (simp add: insert_path_def Let_def len)
  note P = fold_prefix_step_grows[OF p]
  note S = fold_suffix_step_grows[OF s]
  have p1: "dom (prefixes st) \<subseteq> dom (prefixes st1)" and p2: "suffixes st1 = suffixes st"
    and p3: "crossing_edges st1 = crossing_edges st" and p4: "border st1 = border st"
    using P by blast+
  have s1: "dom (suffixes st1) \<subseteq> dom (suffixes st2)" and s2: "prefixes st2 = prefixes st1"
    and s3: "crossing_edges st2 = crossing_edges st1" and s4: "border st2 = border st1"
    using S by blast+
  have d1: "dom (prefixes st) \<subseteq> dom (prefixes st2)" using p1 s2 by simp
  have d2: "dom (suffixes st) \<subseteq> dom (suffixes st2)" using s1 p2 by simp
  have d3: "crossing_edges st \<subseteq> insert (f, t) (crossing_edges st2)"
    unfolding s3 p3 by (rule subset_insertI)
  have a': "anchors (insert_path W st) =
      fst ` dom (prefixes st2) \<union> snd ` dom (suffixes st2) \<union>
      fst ` insert (f, t) (crossing_edges st2) \<union> snd ` insert (f, t) (crossing_edges st2)"
    unfolding ip anchors_def by (simp del: image_insert)
  have mono: "anchors st \<subseteq> anchors (insert_path W st)"
    unfolding a' unfolding anchors_def by (intro Un_mono image_mono d1 d2 d3)
  have h: "hd ?T \<in> anchors (insert_path W st)"
  proof (cases "[1 ..< ?mid] = []")
    case True
    then have "f = hd ?T" using P by simp
    then show ?thesis unfolding a' by simp
  next
    case False
    then have "hd ?T \<in> fst ` dom (prefixes st1)" using P by simp
    then show ?thesis unfolding a' s2 by simp
  qed
  have l: "last ?T \<in> anchors (insert_path W st)"
  proof (cases "rev [?mid ..< length W - 1] = []")
    case True
    then have "t = last ?T" using S by simp
    then show ?thesis unfolding a' by simp
  next
    case False
    then have "last ?T \<in> snd ` dom (suffixes st2)" using S by simp
    then show ?thesis unfolding a' by simp
  qed
  have "border (insert_path W st) = border st" unfolding ip using p4 s4 by simp
  then show ?thesis using mono h l by simp
qed








lemma insert_path_border: "border (insert_path W st) = border st"
  using insert_path_anchors[of st W] by blast



lemma generate_occurrence_border: "border (generate_occurrence p c i st) = border st"
  by (simp add: generate_occurrence_def Let_def insert_path_border)







lemma fold_occurrences_border:
  "border (fold (generate_occurrence p c) occs st) = border st"
  by (induction occs arbitrary: st) (simp_all add: generate_occurrence_border)

lemma generate_paths_border: "border (generate_paths x c from st) = border st"
proof -
  have "border (fold (\<lambda>path_rank. fold (generate_occurrence (get_path x path_rank) c)
                     (node_ranks_in_path x from path_rank)) ranks st) = border st" for ranks
    by (induction ranks arbitrary: st) (simp_all add: fold_occurrences_border)
  then show ?thesis by (simp add: generate_paths_def)
qed













text \<open>
  The complement graph of an index without haplotype threads is made of the edges of the
  reference paths: every node of it is an end of one of its edges that a reference path
  runs over.
\<close>

lemma fold_prev:
  "fold (\<lambda>i (prev, c). let curr = h i in (curr, f (prev, curr) c)) [Suc a ..< Suc (a + n)] (h a, c)
     = (h (a + n), fold (\<lambda>i c. f (h (i - 1), h i) c) [Suc a ..< Suc (a + n)] c)"
  by (induction n) (simp_all add: Let_def)

lemma complement_path_fold:
  "complement_path x graph path c =
     fold (\<lambda>i c. add_missing_edge x graph (path_handle path (i - 1), path_handle path i) c)
       [1 ..< length path] c"
proof (cases "length path")
  case 0
  then show ?thesis by (simp add: complement_path_def)
next
  case (Suc n)
  have "[1 ..< length path] = [Suc 0 ..< Suc (0 + n)]" using Suc by simp
  then show ?thesis
    using fold_prev [of "path_handle path" "add_missing_edge x graph" 0 n c] Suc
    by (simp add: complement_path_def)
qed

lemma add_missing_edge_inv:
  assumes inv: "path_edges_inv x c"
    and path: "path \<in> set (xg_paths x)"
    and i: "Suc i < length path"
    and small: "unat (fst (path ! i)) < 2 ^ 63" "unat (fst (path ! Suc i)) < 2 ^ 63"
  shows "path_edges_inv x
           (add_missing_edge x graph (path_handle path i, path_handle path (Suc i)) c)"
proof -
  let ?c' = "add_missing_edge x graph (path_handle path i, path_handle path (Suc i)) c"
  have edges: "edges c \<subseteq> edges ?c'"
    by (auto simp: add_missing_edge_def VG_add_edge_def VG_add_node_def)
  have nodes: "VG_has_node ?c' b \<Longrightarrow> VG_has_node c b \<or>
      ((path_handle path i, path_handle path (Suc i)) \<in> edges ?c' \<and>
       (fst (path ! i) = b \<or> fst (path ! Suc i) = b))" for b
    using small
    by (auto simp: add_missing_edge_def VG_add_edge_def VG_add_node_def VG_has_node_def
        path_handle_def Node_id_encode xg_node_def split: if_splits)
  show ?thesis
    unfolding path_edges_inv_def
  proof (intro allI impI)
    fix b assume "VG_has_node ?c' b"
    from nodes [OF this] show "\<exists>path \<in> set (xg_paths x). \<exists>i.
           Suc i < length path \<and>
           (path_handle path i, path_handle path (Suc i)) \<in> edges ?c' \<and>
           (fst (path ! i) = b \<or> fst (path ! Suc i) = b)"
    proof
      assume "VG_has_node c b"
      with inv edges show ?thesis unfolding path_edges_inv_def by blast
    next
      assume "(path_handle path i, path_handle path (Suc i)) \<in> edges ?c' \<and>
       (fst (path ! i) = b \<or> fst (path ! Suc i) = b)"
      with path i show ?thesis by blast
    qed
  qed
qed

lemma complement_path_inv:
  assumes inv: "path_edges_inv x c"
    and path: "path \<in> set (xg_paths x)"
    and small: "\<forall>s \<in> set path. unat (fst s) < 2 ^ 63"
  shows "path_edges_inv x (complement_path x graph path c)"
proof -
  have "set is \<subseteq> {1 ..< length path} \<Longrightarrow> path_edges_inv x c \<Longrightarrow> path_edges_inv x
          (fold (\<lambda>i c. add_missing_edge x graph (path_handle path (i - 1), path_handle path i) c)
             is c)" for "is" c
  proof (induction "is" arbitrary: c)
    case Nil
    then show ?case by simp
  next
    case (Cons i "is")
    from Cons.prems have i: "1 \<le> i" "i < length path" by auto
    then obtain j where j: "i = Suc j" by (cases i) auto
    have "path_edges_inv x
            (add_missing_edge x graph (path_handle path j, path_handle path (Suc j)) c)"
      using add_missing_edge_inv [OF Cons.prems(2) path, of j graph] i j small by simp
    with Cons.IH [of "add_missing_edge x graph (path_handle path j, path_handle path (Suc j)) c"]
      Cons.prems(1) j
    show ?case by simp
  qed
  from this [of "[1 ..< length path]" c] inv show ?thesis
    by (simp add: complement_path_fold)
qed

lemma complement_graph_supported:
  assumes no_threads: "gbwt_effective (gbwt_index ix) \<le> 1"
    and small: "\<forall>path \<in> set (xg_paths (xg_index ix)). \<forall>s \<in> set path. unat (fst s) < 2 ^ 63"
    and node: "b \<in> dom (nodes (complement_graph ix graph))"
  shows "path_support (xg_index ix) (complement_graph ix graph) b"
proof -
  let ?x = "xg_index ix"
  have step: "set rs \<subseteq> {1 ..< max_path_rank ?x + 1} \<Longrightarrow> path_edges_inv ?x c \<Longrightarrow>
      path_edges_inv ?x (fold (\<lambda>path_rank. complement_path ?x graph (get_path ?x path_rank)) rs c)"
    for rs c
  proof (induction rs arbitrary: c)
    case Nil
    then show ?case by simp
  next
    case (Cons r rs)
    from Cons.prems(1) have "r - 1 < length (xg_paths ?x)"
      by (auto simp: max_path_rank_def)
    then have "get_path ?x r \<in> set (xg_paths ?x)"
      unfolding get_path_def by (rule nth_mem)
    with complement_path_inv [OF Cons.prems(2), of "get_path ?x r" graph] small
    have "path_edges_inv ?x (complement_path ?x graph (get_path ?x r) c)" by blast
    with Cons.IH Cons.prems(1) show ?case by simp
  qed
  have "path_edges_inv ?x VG_empty"
    by (simp add: path_edges_inv_def VG_empty_def VG_has_node_def)
  then have "path_edges_inv ?x
      (fold (\<lambda>path_rank. complement_path ?x graph (get_path ?x path_rank))
         [1 ..< max_path_rank ?x + 1] VG_empty)"
    by (rule step [OF set_upt [THEN equalityD1]])
  moreover have nil: "[1 ..< gbwt_effective (gbwt_index ix)] = []"
    using no_threads by simp
  have "complement_graph ix graph =
      fold (\<lambda>path_rank. complement_path ?x graph (get_path ?x path_rank))
        [1 ..< max_path_rank ?x + 1] VG_empty"
    unfolding complement_graph_def Let_def nil by simp
  ultimately have "path_edges_inv ?x (complement_graph ix graph)"
    by simp
  with node show ?thesis
    unfolding path_edges_inv_def path_support_def VG_has_node_def VG_has_edge_def by blast
qed

text \<open>
  When no search of the haplotype index finds anything, \<^verbatim>\<open>generate_threads\<close> returns at
  once, and so does the loop over the border nodes.
\<close>

lemma generate_threads_no_threads:
  assumes "\<And>node. gbwt_state_empty (gbwt_index ix) (gbwt_find (gbwt_index ix) node)"
  shows "generate_threads ix component from st = Some st"
  using assms
  by (simp add: generate_threads_def create_state_def thread_loop.simps)

lemma unfold_starts_no_threads:
  assumes "\<And>node. gbwt_state_empty (gbwt_index ix) (gbwt_find (gbwt_index ix) node)"
  shows "\<exists>st'. unfold_starts ix component order st = Some st'"
  by (induction order arbitrary: st) (simp_all add: generate_threads_no_threads [OF assms])


























































text \<open>The two indexes of the thread \<open>2+ 1+\<close> over the graph that has kept node 1.\<close>

lemmas thread_defs =
  complement_threads_def thread_step_def extend_over_edge_def extend_state_def thread_gbwt_def




lemma two_way_components:
  "complement_components two_way_indexes border_graph = [two_way_missing]"
  apply (simp add: two_way_indexes_def border_graph_def two_way_missing_def thread_defs
      handle_defs graph_defs unfold_defs)
  apply (auto simp: fun_eq_iff)
  done

lemma two_way_border:
  "dom (nodes two_way_missing) \<inter> dom (nodes border_graph) = {1}"
  by (auto simp: two_way_missing_def border_graph_def)

lemma two_way_component:
  "unfold_component two_way_indexes two_way_missing border_graph VG_empty (PhaseUnfolder_new 3)
     = Some (Inr (1, \<lparr>nodes = [1 \<mapsto> ''A'', 2 \<mapsto> ''A''], edges = {(3, 5)}\<rparr>,
                  PhaseUnfolder_new 3))"
  apply (simp add: unfold_component_border two_way_border)
  apply (simp add: two_way_indexes_def border_graph_def two_way_missing_def thread_defs
      handle_defs graph_defs unfold_defs insert_defs)
  apply (auto simp: fun_eq_iff NodeMapping_apply_def word_less_nat_alt)
  done









end
